theory Spec2Isabelle
  imports Main "HOL-Library.Option_ord" "HOL-Library.Product_Lexorder" "HOL-Library.Log_Nat"
begin

section \<open>Python values used throughout\<close>

text \<open>
  Strings are \<open>string\<close>; an attribute or argument that may be Python's \<open>None\<close> is an
  \<open>option\<close>. Python's truth test (\<open>if x:\<close>, \<open>x or y\<close>, \<open>not x\<close>) is written out for each
  type it is applied to: \<open>None\<close>, the empty string and the integer zero are false.
  Timestamps (\<open>timezone.now()\<close>) are integers handed to each operation by its caller.
\<close>

type_synonym timestamp = int

definition truthy_str :: "string option \<Rightarrow> bool" where
  "truthy_str s = (case s of None \<Rightarrow> False | Some t \<Rightarrow> t \<noteq> [])"

definition truthy_int :: "int option \<Rightarrow> bool" where
  "truthy_int i = (case i of None \<Rightarrow> False | Some n \<Rightarrow> n \<noteq> 0)"

text \<open>\<open>f"{reason}"\<close> of an optional string: \<open>None\<close> is rendered as the text None.\<close>

definition fmt_opt :: "string option \<Rightarrow> string" where
  "fmt_opt s = (case s of None \<Rightarrow> ''None'' | Some t \<Rightarrow> t)"

text \<open>\<open>str.lower()\<close> on the ASCII letters (the characters of HOL strings are bytes).\<close>

definition lower_char :: "char \<Rightarrow> char" where
  "lower_char c =
     (let n = (of_char c :: nat) in if 65 \<le> n \<and> n \<le> 90 then char_of (n + 32) else c)"

definition lower :: "string \<Rightarrow> string" where
  "lower s = map lower_char s"

text \<open>\<open>value.strip('"')\<close>: double quotes are removed from both ends.\<close>

definition strip_quotes :: "string \<Rightarrow> string" where
  "strip_quotes s =
     rev (dropWhile (\<lambda>c. c = CHR 0x22) (rev (dropWhile (\<lambda>c. c = CHR 0x22) s)))"

text \<open>\<open>sep.join(parts)\<close>.\<close>

fun join :: "string \<Rightarrow> string list \<Rightarrow> string" where
  "join sep [] = []"
| "join sep [p] = p"
| "join sep (p # q # ps) = p @ sep @ join sep (q # ps)"


section \<open>Session records: \<open>bots/models.py\<close>\<close>

text \<open>
  \<open>SocialAccount\<close> with the fields of the Django model. \<open>platform\<close> holds the two-letter
  code, \<open>cookies\<close> the stored list of name/value pairs, \<open>failure_reason\<close> is nullable.
\<close>

record SocialAccount =
  acc_id :: int
  platform :: string
  username :: string
  password :: string
  logged_in :: bool
  last_login :: "timestamp option"
  cookies :: "(string \<times> string) list"
  cookies_updated_at :: "timestamp option"
  in_use :: bool
  last_used_at :: "timestamp option"
  last_validated_at :: "timestamp option"
  consecutive_failures :: int
  failure_reason :: "string option"
  created_at :: timestamp
  updated_at :: timestamp

text \<open>
  The table is the list of its rows. A model instance is a copy of a row held in memory:
  assignments change the copy, and \<open>save(update_fields=[...])\<close> writes only the named
  columns of the copy to the row with the copy's primary key. The columns that the pool
  manager writes are enumerated; every write is also appended to a journal, so that the
  order of database writes and validator calls of one operation can be read off.

  The database also decides where an ascending \<open>ORDER BY\<close> puts NULL: before every value
  (SQLite, MySQL) or after every value (PostgreSQL, Oracle). The settings that name the
  database are not among the sources, so the store carries that choice as \<open>nulls_first\<close>.
\<close>

datatype field =
    F_logged_in | F_last_login | F_in_use | F_last_used_at | F_last_validated_at
  | F_consecutive_failures | F_failure_reason

datatype event =
    Saved "field list" SocialAccount
  | Validated string string string int "string option"

record store =
  rows :: "SocialAccount list"
  journal :: "event list"
  nulls_first :: bool

fun write_field :: "SocialAccount \<Rightarrow> field \<Rightarrow> SocialAccount \<Rightarrow> SocialAccount" where
  "write_field obj F_logged_in row = row\<lparr>logged_in := logged_in obj\<rparr>"
| "write_field obj F_last_login row = row\<lparr>last_login := last_login obj\<rparr>"
| "write_field obj F_in_use row = row\<lparr>in_use := in_use obj\<rparr>"
| "write_field obj F_last_used_at row = row\<lparr>last_used_at := last_used_at obj\<rparr>"
| "write_field obj F_last_validated_at row = row\<lparr>last_validated_at := last_validated_at obj\<rparr>"
| "write_field obj F_consecutive_failures row =
     row\<lparr>consecutive_failures := consecutive_failures obj\<rparr>"
| "write_field obj F_failure_reason row = row\<lparr>failure_reason := failure_reason obj\<rparr>"

definition write_row :: "field list \<Rightarrow> SocialAccount \<Rightarrow> SocialAccount \<Rightarrow> SocialAccount" where
  "write_row fs obj row = (if acc_id row = acc_id obj then fold (write_field obj) fs row else row)"

definition save :: "field list \<Rightarrow> SocialAccount \<Rightarrow> store \<Rightarrow> store" where
  "save fs obj st =
     st\<lparr>rows := map (write_row fs obj) (rows st), journal := journal st @ [Saved fs obj]\<rparr>"

text \<open>\<open>SocialAccount.objects.get(id=cookie_id)\<close>; \<open>None\<close> stands for \<open>DoesNotExist\<close>.\<close>

definition get_by_id :: "int \<Rightarrow> store \<Rightarrow> SocialAccount option" where
  "get_by_id cid st = find (\<lambda>a. acc_id a = cid) (rows st)"

text \<open>
  The methods of the model act on the in-memory instance and on the table; each takes and
  returns the pair of both.
\<close>

definition mark_logged_out ::
  "string option \<Rightarrow> SocialAccount \<times> store \<Rightarrow> SocialAccount \<times> store" where
  "mark_logged_out reason p =
     (let (self, st) = p;
          self1 = self\<lparr>logged_in := False\<rparr>;
          self2 = (if truthy_str reason then self1\<lparr>failure_reason := reason\<rparr> else self1)
      in (self2, save [F_logged_in, F_failure_reason] self2 st))"

definition increment_failures ::
  "string option \<Rightarrow> SocialAccount \<times> store \<Rightarrow> SocialAccount \<times> store" where
  "increment_failures reason p =
     (let (self, st) = p;
          self1 = self\<lparr>consecutive_failures := consecutive_failures self + 1\<rparr>;
          self2 = (if truthy_str reason then self1\<lparr>failure_reason := reason\<rparr> else self1);
          (self3, st3) =
            (if consecutive_failures self2 \<ge> 3
             then mark_logged_out (Some (''Banned after 3 failures: '' @ fmt_opt reason)) (self2, st)
             else (self2, st))
      in (self3, save [F_consecutive_failures, F_failure_reason] self3 st3))"

definition reset_failures :: "SocialAccount \<times> store \<Rightarrow> SocialAccount \<times> store" where
  "reset_failures p =
     (let (self, st) = p
      in if consecutive_failures self > 0
         then (let self1 = self\<lparr>consecutive_failures := 0, failure_reason := None\<rparr>
               in (self1, save [F_consecutive_failures, F_failure_reason] self1 st))
         else (self, st))"


section \<open>Resource pool manager: \<open>bots/services/cookie_service.py\<close>\<close>

definition PLATFORM_MAP :: "(string \<times> string) list" where
  "PLATFORM_MAP = [(''instagram'', ''IG''), (''linkedin'', ''LI''), (''twitter'', ''TW'')]"

definition get_platform_code :: "string \<Rightarrow> string option" where
  "get_platform_code platform_name = map_of PLATFORM_MAP (lower platform_name)"

text \<open>
  \<open>convert_cookies_to_string\<close>: pairs with an empty name or value are skipped, the value of
  the last \<open>csrftoken\<close> pair is the token, and the parts are joined with a semicolon and a
  space.
\<close>

fun cookie_parts :: "(string \<times> string) list \<Rightarrow> string \<Rightarrow> string list \<times> string" where
  "cookie_parts [] csrf = ([], csrf)"
| "cookie_parts ((name, val) # cs) csrf =
     (if name \<noteq> [] \<and> val \<noteq> []
      then (let csrf1 = (if name = ''csrftoken'' then strip_quotes val else csrf);
                (parts, csrf2) = cookie_parts cs csrf1
            in ((name @ ''='' @ strip_quotes val) # parts, csrf2))
      else cookie_parts cs csrf)"

definition convert_cookies_to_string :: "(string \<times> string) list \<Rightarrow> string \<times> string" where
  "convert_cookies_to_string cookies_list =
     (let (parts, csrf_token) = cookie_parts cookies_list [] in (join ''; '' parts, csrf_token))"

text \<open>
  The validator is a collaborator that talks to the network. The pool manager is given it
  as a function of the arguments it is called with (cookie string, token, platform name,
  record id, post URL) to the triple it returns (valid, reason, comment count).
\<close>

type_synonym validator = "string \<Rightarrow> string \<Rightarrow> string \<Rightarrow> int \<Rightarrow> string option \<Rightarrow> bool \<times> string \<times> int"

record allocation =
  a_cookie_id :: int
  a_username :: string
  a_platform :: string
  a_cookies :: string
  a_csrf_token :: string
  a_comment_count :: int

text \<open>
  The query of \<open>allocate_cookie\<close>: the rows of the platform that are logged in and not in
  use, in the order of \<open>order_by('last_used_at')\<close>, which is \<open>ORDER BY last_used_at ASC\<close>
  with no NULL placement asked for; \<open>first()\<close> takes the head. The key of a row puts its
  NULL where the database of the store puts it, and orders the timestamps among
  themselves. Rows with equal keys keep their table order.
\<close>

definition eligible :: "string \<Rightarrow> SocialAccount \<Rightarrow> bool" where
  "eligible code a = (platform a = code \<and> logged_in a = True \<and> in_use a = False)"

definition order_key :: "bool \<Rightarrow> SocialAccount \<Rightarrow> nat \<times> timestamp option" where
  "order_key nf a =
     (case last_used_at a of
        None \<Rightarrow> (if nf then 0 else 2, None)
      | Some t \<Rightarrow> (1, Some t))"

text \<open>
  The order of the keys, read on the two \<open>last_used_at\<close>: timestamps compare as numbers,
  and NULL stands before or after every timestamp as the database has it.
\<close>

definition before_or_equal :: "bool \<Rightarrow> timestamp option \<Rightarrow> timestamp option \<Rightarrow> bool" where
  "before_or_equal nf x y =
     (case (x, y) of
        (Some t, Some t') \<Rightarrow> t \<le> t'
      | (None, Some t') \<Rightarrow> nf
      | (Some t, None) \<Rightarrow> \<not> nf
      | (None, None) \<Rightarrow> True)"

definition select_account :: "string \<Rightarrow> store \<Rightarrow> SocialAccount option" where
  "select_account code st =
     (case sort_key (order_key (nulls_first st)) (filter (eligible code) (rows st)) of
        [] \<Rightarrow> None
      | a # _ \<Rightarrow> Some a)"

definition allocate_cookie ::
  "validator \<Rightarrow> timestamp \<Rightarrow> string \<Rightarrow> string option \<Rightarrow> store \<Rightarrow> allocation option \<times> store" where
  "allocate_cookie validate now platform_name post_url st =
     (case get_platform_code platform_name of
        None \<Rightarrow> (None, st)
      | Some platform_code \<Rightarrow>
          (case select_account platform_code st of
             None \<Rightarrow> (None, st)
           | Some account \<Rightarrow>
               (let account1 = account\<lparr>in_use := True\<rparr>;
                    st1 = save [F_in_use] account1 st;
                    (cookies_string, csrf_token) = convert_cookies_to_string (cookies account1);
                    st2 = st1\<lparr>journal := journal st1 @
                            [Validated cookies_string csrf_token platform_name (acc_id account1) post_url]\<rparr>;
                    (is_valid, reason, comment_count) =
                       validate cookies_string csrf_token platform_name (acc_id account1) post_url
                in if \<not> is_valid
                   then (let account2 = account1\<lparr>logged_in := False, in_use := False\<rparr>;
                             (account3, st3) =
                                increment_failures (Some (''Pre-validation failed: '' @ reason))
                                  (account2, st2)
                         in (None, save [F_logged_in, F_in_use] account3 st3))
                   else (let account2 = account1\<lparr>last_validated_at := Some now\<rparr>
                         in (Some \<lparr>a_cookie_id = acc_id account2, a_username = username account2,
                                   a_platform = platform_name, a_cookies = cookies_string,
                                   a_csrf_token = csrf_token, a_comment_count = comment_count\<rparr>,
                             save [F_last_validated_at] account2 st2)))))"

definition release_cookie ::
  "timestamp \<Rightarrow> int \<Rightarrow> bool \<Rightarrow> string option \<Rightarrow> store \<Rightarrow> bool \<times> store" where
  "release_cookie now cookie_id success reason st =
     (case get_by_id cookie_id st of
        None \<Rightarrow> (False, st)
      | Some account \<Rightarrow>
          (let account1 = account\<lparr>in_use := False, last_used_at := Some now\<rparr>;
               (account2, st2) =
                  (if success then reset_failures (account1, st)
                   else increment_failures reason (account1, st))
           in (True, save [F_in_use, F_last_used_at] account2 st2)))"

text \<open>A run of pool operations; the results of the allocations are collected in order.\<close>

datatype pool_op =
    Allocate validator timestamp string "string option"
  | Release timestamp int bool "string option"

fun run_ops :: "pool_op list \<Rightarrow> store \<Rightarrow> allocation option list \<times> store" where
  "run_ops [] st = ([], st)"
| "run_ops (Allocate v now p u # ops) st =
     (let (r, st1) = allocate_cookie v now p u st;
          (rs, st2) = run_ops ops st1
      in (r # rs, st2))"
| "run_ops (Release now cid ok reason # ops) st =
     run_ops ops (snd (release_cookie now cid ok reason st))"


text \<open>A record with the given id is banned: none of its rows is logged in.\<close>

definition banned :: "int \<Rightarrow> store \<Rightarrow> bool" where
  "banned cid st = list_all (\<lambda>a. acc_id a = cid \<longrightarrow> \<not> logged_in a) (rows st)"

text \<open>
  Concrete pools on which the theorems are instantiated, in a database that sorts NULL
  first; \<open>pool_nulls_last\<close> is the first of them in a database that sorts NULL last.
\<close>

definition mk_account ::
  "int \<Rightarrow> string \<Rightarrow> bool \<Rightarrow> bool \<Rightarrow> timestamp option \<Rightarrow> int \<Rightarrow> string option \<Rightarrow> SocialAccount" where
  "mk_account i p li iu lu cf fr =
     \<lparr>acc_id = i, platform = p, username = ''user'', password = ''secret'', logged_in = li,
      last_login = None, cookies = [(''csrftoken'', ''tok''), (''sessionid'', ''abc'')],
      cookies_updated_at = None, in_use = iu,
      last_used_at = lu, last_validated_at = None, consecutive_failures = cf,
      failure_reason = fr, created_at = 0, updated_at = 0\<rparr>"

definition pool_example :: store where
  "pool_example =
     \<lparr>rows = [mk_account 1 ''IG'' True False (Some 50) 0 None,
              mk_account 2 ''IG'' True False None 0 None,
              mk_account 3 ''IG'' True True None 0 None,
              mk_account 4 ''LI'' True False None 0 None,
              mk_account 5 ''IG'' False False None 3 (Some ''Banned after 3 failures: blocked'')],
      journal = [], nulls_first = True\<rparr>"

definition pool_nulls_last :: store where
  "pool_nulls_last = pool_example\<lparr>nulls_first := False\<rparr>"

definition stale_store :: store where
  "stale_store = \<lparr>rows = [mk_account 1 ''IG'' True True None 0 (Some ''checkpoint required'')],
                   journal = [], nulls_first = True\<rparr>"

definition always_valid :: validator where
  "always_valid cookies_string csrf_token platform_name cookie_id post_url = (True, [], 12)"


section \<open>Session validator: \<open>bots/services/cookie_validator.py\<close>\<close>

text \<open>
  \<open>_extract_shortcode_from_url\<close> searches the URL for the first place where
  \<open>/(?:p|reel|reels|tv)/([A-Za-z0-9_-]+)\<close> matches and returns the group. At one
  position the alternatives are tried in the order written, and the group takes as many
  characters of the class as follow.
\<close>

definition shortcode_char :: "char \<Rightarrow> bool" where
  "shortcode_char c =
     (let n = (of_char c :: nat)
      in (65 \<le> n \<and> n \<le> 90) \<or> (97 \<le> n \<and> n \<le> 122) \<or> (48 \<le> n \<and> n \<le> 57)
         \<or> c = CHR ''_'' \<or> c = CHR ''-'')"

fun strip_prefix :: "string \<Rightarrow> string \<Rightarrow> string option" where
  "strip_prefix [] s = Some s"
| "strip_prefix (p # ps) [] = None"
| "strip_prefix (p # ps) (c # cs) = (if p = c then strip_prefix ps cs else None)"

fun match_alternatives :: "string \<Rightarrow> string list \<Rightarrow> string \<Rightarrow> string option" where
  "match_alternatives pre [] s = None"
| "match_alternatives pre (alt # alts) s =
     (case strip_prefix (pre @ alt @ ''/'') s of
        None \<Rightarrow> match_alternatives pre alts s
      | Some rest \<Rightarrow>
          (if takeWhile shortcode_char rest \<noteq> [] then Some (takeWhile shortcode_char rest)
           else match_alternatives pre alts s))"

fun search_alternatives :: "string \<Rightarrow> string list \<Rightarrow> string \<Rightarrow> string option" where
  "search_alternatives pre alts [] = None"
| "search_alternatives pre alts (c # cs) =
     (case match_alternatives pre alts (c # cs) of
        Some g \<Rightarrow> Some g
      | None \<Rightarrow> search_alternatives pre alts cs)"

definition search_shortcode :: "string \<Rightarrow> string option" where
  "search_shortcode url = search_alternatives ''/'' [''p'', ''reel'', ''reels'', ''tv''] url"

text \<open>
  What one attempt of the request can do. An exception is given by the first class among
  those the handlers name that it is an instance of: \<open>HTTPError\<close> (raised by
  \<open>raise_for_status\<close>, with the status code of the response), \<open>Timeout\<close>, any other
  \<open>RequestException\<close> (a refused connection, a DNS failure), or an exception outside the
  \<open>requests\<close> hierarchy. An attempt that raises nothing has a decoded body whose item list
  is empty, or not, and then the \<open>comment_count\<close> of the first item is read.
\<close>

datatype net_exc = HTTPError int | Timeout | RequestException | OtherException

datatype attempt_result = Raises net_exc | Items int | NoItems

datatype net_event = Sleep nat | Request nat

type_synonym verdict = "bool \<times> string \<times> int"

definition retry_delays :: "nat list" where
  "retry_delays = [2, 4, 8]"

text \<open>
  The loop \<open>for attempt in range(len(retry_delays) + 1)\<close> of
  \<open>_validate_with_post_graphql\<close>, on the attempts still to be made. The result is the
  exception that leaves the function or the triple it returns, with the sleeps and requests
  made, in order.
\<close>

fun validate_attempts ::
  "(nat \<Rightarrow> attempt_result) \<Rightarrow> nat list \<Rightarrow> (net_exc + verdict) \<times> net_event list" where
  "validate_attempts upstream [] = (Inr (False, ''max_retries_exceeded'', 0), [])"
| "validate_attempts upstream (attempt # rest) =
     (let before = (if attempt > 0 then [Sleep (retry_delays ! (attempt - 1))] else []);
          (r, after) =
            (case upstream attempt of
               Items comment_count \<Rightarrow> (Inr (True, [], comment_count), [])
             | NoItems \<Rightarrow>
                 (if attempt = length retry_delays
                  then (Inr (False, ''unexpected_response'', 0), [])
                  else validate_attempts upstream rest)
             | Raises (HTTPError status) \<Rightarrow> (Inl (HTTPError status), [])
             | Raises OtherException \<Rightarrow> (Inl OtherException, [])
             | Raises e \<Rightarrow>
                 (if attempt = length retry_delays then (Inl e, [])
                  else validate_attempts upstream rest))
      in (r, before @ Request attempt # after))"

definition attempts :: "nat list" where
  "attempts = [0 ..< length retry_delays + 1]"

definition validate_with_post_graphql ::
  "(nat \<Rightarrow> attempt_result) \<Rightarrow> string option \<Rightarrow> (net_exc + verdict) \<times> net_event list" where
  "validate_with_post_graphql upstream post_url =
     (case post_url of
        None \<Rightarrow> (Inl OtherException, [])
      | Some url \<Rightarrow>
          (case search_shortcode url of
             None \<Rightarrow> (Inr (False, ''invalid_shortcode'', 0), [])
           | Some shortcode \<Rightarrow> validate_attempts upstream attempts))"

text \<open>Decimal digits of a status code, for \<open>f"http_error_{status_code}"\<close>.\<close>

fun str_nat :: "nat \<Rightarrow> string" where
  "str_nat n =
     (if n < 10 then [char_of (48 + n)] else str_nat (n div 10) @ [char_of (48 + n mod 10)])"

definition str_int :: "int \<Rightarrow> string" where
  "str_int i = (if i < 0 then ''-'' @ str_nat (nat (- i)) else str_nat (nat i))"

text \<open>
  \<open>validate_instagram\<close>: the handlers are tried in the order written, so an \<open>HTTPError\<close> is
  classified by its status, a \<open>Timeout\<close> by the handler for \<open>Timeout\<close>, and only the
  remaining \<open>RequestException\<close>s by the handler for \<open>RequestException\<close>.
\<close>

definition classify_http :: "int \<Rightarrow> verdict" where
  "classify_http status_code =
     (if status_code = 401 \<or> status_code = 403 then (False, ''session_expired'', 0)
      else if status_code = 429 then (False, ''rate_limited'', 0)
      else if status_code \<ge> 500 then (False, ''api_error'', 0)
      else (False, ''http_error_'' @ str_int status_code, 0))"

definition validate_instagram ::
  "(nat \<Rightarrow> attempt_result) \<Rightarrow> string \<Rightarrow> string \<Rightarrow> int \<Rightarrow> string option
     \<Rightarrow> verdict \<times> net_event list" where
  "validate_instagram upstream cookies_string csrf_token cookie_id post_url =
     (case validate_with_post_graphql upstream post_url of
        (Inr v, evs) \<Rightarrow> (v, evs)
      | (Inl (HTTPError status_code), evs) \<Rightarrow> (classify_http status_code, evs)
      | (Inl Timeout, evs) \<Rightarrow> ((False, ''timeout'', 0), evs)
      | (Inl RequestException, evs) \<Rightarrow> ((False, ''network_error'', 0), evs)
      | (Inl OtherException, evs) \<Rightarrow> ((False, ''unexpected_error'', 0), evs))"

text \<open>\<open>CookieValidator.validate\<close>: only the Instagram variant probes the service.\<close>

definition validate ::
  "(nat \<Rightarrow> attempt_result) \<Rightarrow> string \<Rightarrow> string \<Rightarrow> string \<Rightarrow> int \<Rightarrow> string option \<Rightarrow> verdict" where
  "validate upstream cookies_string csrf_token platform_name cookie_id post_url =
     (if lower platform_name = ''instagram''
      then fst (validate_instagram upstream cookies_string csrf_token cookie_id post_url)
      else if lower platform_name = ''linkedin'' then (True, [], 0)
      else if lower platform_name = ''twitter'' then (True, [], 0)
      else (True, [], 0))"

definition reel_url :: string where
  "reel_url = ''https://www.instagram.com/reel/ABC123/''"


section \<open>Comment scraper: \<open>InstagramCommentScraper\<close> in \<open>instagram_comments_lambda.py\<close>\<close>

text \<open>
  The values of the keys that the scraper reads from a node of the API's answer: JSON
  null, an integer or a string; an absent key is \<open>None\<close> of the option type. \<open>truthy_json\<close>
  is Python's truth test and \<open>py_str\<close> is \<open>str(...)\<close>.
\<close>

datatype json = JNull | JInt int | JStr string

definition truthy_json :: "json \<Rightarrow> bool" where
  "truthy_json v = (case v of JNull \<Rightarrow> False | JInt i \<Rightarrow> i \<noteq> 0 | JStr s \<Rightarrow> s \<noteq> [])"

definition py_str :: "json \<Rightarrow> string" where
  "py_str v = (case v of JNull \<Rightarrow> ''None'' | JInt i \<Rightarrow> str_int i | JStr s \<Rightarrow> s)"

text \<open>\<open>d.get(key, default)\<close> for a key that may be absent.\<close>

definition get_or :: "json option \<Rightarrow> json \<Rightarrow> json" where
  "get_or v dflt = (case v of None \<Rightarrow> dflt | Some x \<Rightarrow> x)"

record node =
  pk :: "json option"
  id_key :: "json option"
  child_comment_count :: "json option"

record page_info =
  has_next_page :: bool
  end_cursor :: "string option"

text \<open>
  A parsed comment, as far as the properties below read it: the \<open>type\<close> tag, the
  \<open>comment_id\<close> and the \<open>parent_comment_id\<close> of the dictionary that \<open>_parse_comment\<close>
  builds. The result of a scrape carries the comments and their number.
\<close>

record comment =
  comment_type :: string
  comment_id :: string
  parent_comment_id :: string

record scrape_result =
  total_comments :: int
  comments :: "comment list"

text \<open>
  \<open>scrape_comments\<close> returns a result, raises \<open>InstagramAPIBlockedException\<close>, or raises
  another exception; the texts are \<open>str(e)\<close>.
\<close>

datatype scrape_outcome = Scraped scrape_result | ApiBlocked string | ScrapeFailed string

datatype scrape_exc = BlockedExc string | OtherExc string

definition parse_comment :: "node \<Rightarrow> bool \<Rightarrow> string \<Rightarrow> comment" where
  "parse_comment n is_reply parent =
     \<lparr>comment_type = (if is_reply then ''reply'' else ''comment''),
      comment_id = py_str (get_or (pk n) (JStr [])),
      parent_comment_id = parent\<rparr>"

text \<open>
  What one call of \<open>_make_request\<close> brings back, in the terms of the code that reads it:
  nothing (\<open>None\<close>, after the retries on HTTP and URL errors), the exception for a blocked
  API, a body on which the extraction raises \<open>KeyError\<close> or \<open>TypeError\<close>, a body on which it
  raises another exception, the media info with the media id, or a page of a connection
  with its edges and its \<open>page_info\<close>. The answers of the service to the requests of one
  scrape are a list, consumed in the order in which the requests are made; a loop that asks
  for an answer when none is left has not returned, which is the value \<open>None\<close>.
\<close>

datatype api_response =
    NoResponse
  | RaisesBlocked string
  | Malformed
  | Unparsable string
  | MediaInfo "string option"
  | Page "node list" page_info

subsection \<open>\<open>_fetch_all_replies\<close>\<close>

definition reply_key :: "node \<Rightarrow> string" where
  "reply_key n =
     py_str (let p = get_or (pk n) (JStr [])
             in if truthy_json p then p else get_or (id_key n) (JStr []))"

fun new_replies :: "node list \<Rightarrow> string set \<Rightarrow> string \<Rightarrow> comment list \<times> string set" where
  "new_replies [] seen parent = ([], seen)"
| "new_replies (n # ns) seen parent =
     (if reply_key n \<noteq> [] \<and> reply_key n \<notin> seen
      then (let (cs, seen1) = new_replies ns (insert (reply_key n) seen) parent
            in (parse_comment n True parent # cs, seen1))
      else new_replies ns seen parent)"

record reply_state =
  replies :: "comment list"
  seen_reply_ids :: "string set"
  after_cursor :: "string option"
  previous_cursor :: "string option"

fun fetch_replies_loop ::
  "api_response list \<Rightarrow> string \<Rightarrow> reply_state \<Rightarrow> ((scrape_exc + comment list) \<times> api_response list) option"
where
  "fetch_replies_loop [] parent st = None"
| "fetch_replies_loop (r # rs) parent st =
     (case r of
        NoResponse \<Rightarrow> Some (Inr (replies st), rs)
      | RaisesBlocked msg \<Rightarrow> Some (Inl (BlockedExc msg), rs)
      | Malformed \<Rightarrow> Some (Inr (replies st), rs)
      | Unparsable msg \<Rightarrow> Some (Inl (OtherExc msg), rs)
      | MediaInfo m \<Rightarrow> Some (Inr (replies st), rs)
      | Page edges info \<Rightarrow>
          (let (new, seen1) = new_replies edges (seen_reply_ids st) parent
           in if new = [] then Some (Inr (replies st), rs)
              else if \<not> has_next_page info then Some (Inr (replies st @ new), rs)
              else if \<not> truthy_str (end_cursor info) then Some (Inr (replies st @ new), rs)
              else if end_cursor info = previous_cursor st \<or> end_cursor info = after_cursor st
                then Some (Inr (replies st @ new), rs)
              else fetch_replies_loop rs parent
                     \<lparr>replies = replies st @ new, seen_reply_ids = seen1,
                      after_cursor = end_cursor info, previous_cursor = after_cursor st\<rparr>))"

definition fetch_all_replies ::
  "api_response list \<Rightarrow> string \<Rightarrow> ((scrape_exc + comment list) \<times> api_response list) option" where
  "fetch_all_replies rs parent =
     fetch_replies_loop rs parent
       \<lparr>replies = [], seen_reply_ids = {}, after_cursor = None, previous_cursor = None\<rparr>"

text \<open>
  A cursor repeats within two pages somewhere in a list of answers, seen from a loop whose
  previous and current cursors are given; an answer that is not a page ends the loop
  anyway.
\<close>

fun cursor_repeats :: "string option \<Rightarrow> string option \<Rightarrow> api_response list \<Rightarrow> bool" where
  "cursor_repeats prev cur [] = False"
| "cursor_repeats prev cur (Page edges info # rs) =
     (end_cursor info = prev \<or> end_cursor info = cur \<or> cursor_repeats cur (end_cursor info) rs)"
| "cursor_repeats prev cur (r # rs) = True"

subsection \<open>\<open>scrape_comments\<close>\<close>

text \<open>
  \<open>extract_shortcode\<close>: the first match of \<open>instagram\.com/(?:p|reels?)/([A-Za-z0-9_-]+)\<close>,
  or else the argument itself when it consists of six or more characters of the class.
\<close>

definition extract_shortcode :: "string \<Rightarrow> string option" where
  "extract_shortcode url =
     (case search_alternatives ''instagram.com/'' [''p'', ''reels'', ''reel''] url of
        Some g \<Rightarrow> Some g
      | None \<Rightarrow> (if list_all shortcode_char url \<and> 6 \<le> length url then Some url else None))"

text \<open>The nodes of a page that have a true \<open>pk\<close>, each with \<open>str(pk)\<close>.\<close>

fun page_comments :: "node list \<Rightarrow> (string \<times> node) list" where
  "page_comments [] = []"
| "page_comments (n # ns) =
     (case pk n of
        None \<Rightarrow> page_comments ns
      | Some v \<Rightarrow> (if truthy_json v then (py_str v, n) # page_comments ns else page_comments ns))"

fun new_comments ::
  "(string \<times> node) list \<Rightarrow> string set \<Rightarrow> (string \<times> node) list \<times> string set" where
  "new_comments [] seen = ([], seen)"
| "new_comments ((cid, n) # items) seen =
     (if cid \<notin> seen
      then (let (new, seen1) = new_comments items (insert cid seen) in ((cid, n) # new, seen1))
      else new_comments items seen)"

text \<open>
  The loop over the new comments of a page. It ends normally (also by the \<open>break\<close> at the
  comment limit), or a \<open>TypeError\<close> is raised by the comparison of a \<open>child_comment_count\<close>
  that is no number, or an exception of a reply request passes through.
\<close>

datatype signal = Finished | TypeErrorRaised

definition at_limit :: "int option \<Rightarrow> comment list \<Rightarrow> bool" where
  "at_limit limit all_comments = (truthy_int limit \<and> int (length all_comments) \<ge> the limit)"

fun process_new_comments ::
  "api_response list \<Rightarrow> bool \<Rightarrow> int option \<Rightarrow> (string \<times> node) list \<Rightarrow> comment list
     \<Rightarrow> ((scrape_exc + signal \<times> comment list) \<times> api_response list) option" where
  "process_new_comments rs with_replies limit [] all_comments =
     Some (Inr (Finished, all_comments), rs)"
| "process_new_comments rs with_replies limit ((cid, n) # items) all_comments =
     (let c = parse_comment n False [];
          all1 = all_comments @ [c];
          continue = (\<lambda>all2 rs2.
             if at_limit limit all2 then Some (Inr (Finished, all2), rs2)
             else process_new_comments rs2 with_replies limit items all2)
      in if \<not> with_replies then continue all1 rs
         else (case get_or (child_comment_count n) (JInt 0) of
                 JInt k \<Rightarrow>
                   (if k > 0
                    then (case fetch_all_replies rs cid of
                            None \<Rightarrow> None
                          | Some (Inl e, rs1) \<Rightarrow> Some (Inl e, rs1)
                          | Some (Inr rep, rs1) \<Rightarrow> continue (all1 @ rep) rs1)
                    else continue all1 rs)
               | _ \<Rightarrow> Some (Inr (TypeErrorRaised, all1), rs)))"

text \<open>
  Both loops use up the answers they were given: this is what makes the loop over the
  pages terminate on every list of answers.
\<close>

lemma fetch_replies_loop_consumes:
  "fetch_replies_loop rs parent st = Some (out, rs1) \<Longrightarrow> length rs1 < length rs"
proof (induction rs arbitrary: st)
  case Nil
  then show ?case by simp
next
  case (Cons r rs)
  show ?case
  proof (cases r)
    case (Page edges info)
    obtain new seen1 where n: "new_replies edges (seen_reply_ids st) parent = (new, seen1)"
      by (cases "new_replies edges (seen_reply_ids st) parent")
    show ?thesis
      using Cons.prems Page n
      by (auto simp: Let_def split: if_splits dest!: Cons.IH)
  qed (use Cons.prems in auto)
qed

lemma process_new_comments_consumes:
  "process_new_comments rs with_replies limit items acc = Some (out, rs1) \<Longrightarrow>
   length rs1 \<le> length rs"
proof (induction items arbitrary: rs acc with_replies)
  case Nil
  then show ?case by simp
next
  case (Cons item items)
  obtain cid n where i: "item = (cid, n)" by (cases item)
  show ?case
    using Cons.prems unfolding i
    by (auto simp: Let_def fetch_all_replies_def split: if_splits json.splits option.splits
          prod.splits sum.splits
          dest!: fetch_replies_loop_consumes dest: Cons.IH)
qed

text \<open>
  The loop \<open>while True\<close> of \<open>scrape_comments\<close>, on the answers still to come. It
  returns the accumulated comments when it stops, or the exception that leaves it.
\<close>

record scrape_state =
  all_comments :: "comment list"
  seen_comment_ids :: "string set"
  page_cursor :: "string option"
  consecutive_empty_pages :: nat

function scrape_loop ::
  "api_response list \<Rightarrow> bool \<Rightarrow> int option \<Rightarrow> scrape_state
     \<Rightarrow> ((scrape_exc + comment list) \<times> api_response list) option" where
  "scrape_loop [] with_replies limit st = None"
| "scrape_loop (r # rs) with_replies limit st =
     (case r of
        NoResponse \<Rightarrow> Some (Inr (all_comments st), rs)
      | RaisesBlocked msg \<Rightarrow> Some (Inl (BlockedExc msg), rs)
      | Malformed \<Rightarrow> Some (Inr (all_comments st), rs)
      | Unparsable msg \<Rightarrow> Some (Inl (OtherExc msg), rs)
      | MediaInfo m \<Rightarrow> Some (Inr (all_comments st), rs)
      | Page edges info \<Rightarrow>
          (let (new, seen1) = new_comments (page_comments edges) (seen_comment_ids st)
           in case process_new_comments rs with_replies limit new (all_comments st) of
                None \<Rightarrow> None
              | Some (Inl e, rs1) \<Rightarrow> Some (Inl e, rs1)
              | Some (Inr (TypeErrorRaised, all1), rs1) \<Rightarrow> Some (Inr all1, rs1)
              | Some (Inr (Finished, all1), rs1) \<Rightarrow>
                  (let empties = (if new = [] then consecutive_empty_pages st + 1 else 0)
                   in if empties \<ge> 3 then Some (Inr all1, rs1)
                      else if at_limit limit all1 then Some (Inr all1, rs1)
                      else if \<not> has_next_page info then Some (Inr all1, rs1)
                      else if \<not> truthy_str (end_cursor info) then Some (Inr all1, rs1)
                      else scrape_loop rs1 with_replies limit
                             \<lparr>all_comments = all1, seen_comment_ids = seen1,
                              page_cursor = end_cursor info,
                              consecutive_empty_pages = empties\<rparr>)))"
  by pat_completeness auto
termination
  by (relation "measure (\<lambda>(rs, with_replies, limit, st). length rs)")
     (auto dest!: process_new_comments_consumes)

definition get_media_id :: "api_response \<Rightarrow> scrape_exc + string option" where
  "get_media_id r =
     (case r of
        RaisesBlocked msg \<Rightarrow> Inl (BlockedExc msg)
      | Unparsable msg \<Rightarrow> Inl (OtherExc msg)
      | MediaInfo m \<Rightarrow> Inr (if truthy_str m then m else None)
      | _ \<Rightarrow> Inr None)"

definition scrape_comments ::
  "api_response list \<Rightarrow> string \<Rightarrow> bool \<Rightarrow> int option
     \<Rightarrow> (scrape_outcome \<times> api_response list) option" where
  "scrape_comments rs url with_replies limit =
     (case extract_shortcode url of
        None \<Rightarrow> Some (ScrapeFailed (''Could not extract shortcode from: '' @ url), rs)
      | Some shortcode \<Rightarrow>
          (case rs of
             [] \<Rightarrow> None
           | r # rs1 \<Rightarrow>
               (case get_media_id r of
                  Inl (BlockedExc msg) \<Rightarrow> Some (ApiBlocked msg, rs1)
                | Inl (OtherExc msg) \<Rightarrow> Some (ScrapeFailed msg, rs1)
                | Inr None \<Rightarrow>
                    Some (ScrapeFailed (''Could not get media ID for shortcode: '' @ shortcode), rs1)
                | Inr (Some media_id) \<Rightarrow>
                    (case scrape_loop rs1 with_replies limit
                            \<lparr>all_comments = [], seen_comment_ids = {}, page_cursor = None,
                             consecutive_empty_pages = 0\<rparr> of
                       None \<Rightarrow> None
                     | Some (Inl (BlockedExc msg), rs2) \<Rightarrow> Some (ApiBlocked msg, rs2)
                     | Some (Inl (OtherExc msg), rs2) \<Rightarrow> Some (ScrapeFailed msg, rs2)
                     | Some (Inr acc, rs2) \<Rightarrow>
                         Some (Scraped \<lparr>total_comments = int (length acc), comments = acc\<rparr>,
                               rs2)))))"

text \<open>
  The comment ids of the top-level comments of a list of parsed comments, and the
  invariant of the loop over the pages: no id occurs twice among them, and each of them is
  in the set of seen ids.
\<close>

definition top_level_ids :: "comment list \<Rightarrow> string list" where
  "top_level_ids acc = map comment_id (filter (\<lambda>c. comment_type c = ''comment'') acc)"

definition no_duplicates :: "scrape_state \<Rightarrow> bool" where
  "no_duplicates st =
     (distinct (top_level_ids (all_comments st)) \<and>
      set (top_level_ids (all_comments st)) \<subseteq> seen_comment_ids st)"

text \<open>
  The items of a page are keyed by the comment id that \<open>_parse_comment\<close> gives their node.
\<close>

definition well_keyed :: "(string \<times> node) list \<Rightarrow> bool" where
  "well_keyed items = list_all (\<lambda>(cid, n). comment_id (parse_comment n False []) = cid) items"


subsection \<open>Example answers of the comment API\<close>

definition mk_node :: "int \<Rightarrow> int \<Rightarrow> node" where
  "mk_node i k = \<lparr>pk = Some (JInt i), id_key = None, child_comment_count = Some (JInt k)\<rparr>"

definition mk_comment :: "string \<Rightarrow> comment" where
  "mk_comment i = \<lparr>comment_type = ''comment'', comment_id = i, parent_comment_id = []\<rparr>"

definition mk_reply :: "string \<Rightarrow> string \<Rightarrow> comment" where
  "mk_reply i p = \<lparr>comment_type = ''reply'', comment_id = i, parent_comment_id = p\<rparr>"

text \<open>
  A post whose two pages of comments overlap: the comment \<open>2\<close> is on both. It has one
  reply, and that reply has the same \<open>pk\<close> as the comment \<open>3\<close>.
\<close>

definition overlapping_pages :: "api_response list" where
  "overlapping_pages =
     [MediaInfo (Some ''3100''),
      Page [mk_node 1 0, mk_node 2 1] \<lparr>has_next_page = True, end_cursor = Some ''c1''\<rparr>,
      Page [mk_node 3 0] \<lparr>has_next_page = False, end_cursor = None\<rparr>,
      Page [mk_node 2 1, mk_node 3 0] \<lparr>has_next_page = False, end_cursor = None\<rparr>]"

text \<open>
  Pages of replies whose cursors go \<open>A\<close>, \<open>B\<close>, \<open>A\<close>, \<open>B\<close>, each page with a reply not seen
  before, and the state of the loop after the first two of them. In \<open>cycling_reply_pages\<close>
  the cursors go round three values.
\<close>

definition reply_page :: "int \<Rightarrow> string \<Rightarrow> api_response" where
  "reply_page i c = Page [mk_node i 0] \<lparr>has_next_page = True, end_cursor = Some c\<rparr>"

definition repeating_reply_pages :: "api_response list" where
  "repeating_reply_pages =
     [reply_page 11 ''A'', reply_page 12 ''B'', reply_page 13 ''A'', reply_page 14 ''B'']"

definition after_two_pages :: reply_state where
  "after_two_pages =
     \<lparr>replies = [mk_reply ''11'' ''1'', mk_reply ''12'' ''1''],
      seen_reply_ids = {''11'', ''12''},
      after_cursor = Some ''B'', previous_cursor = Some ''A''\<rparr>"

definition cycling_reply_pages :: "api_response list" where
  "cycling_reply_pages =
     [reply_page 11 ''A'', reply_page 12 ''B'', reply_page 13 ''C'',
      reply_page 14 ''A'', reply_page 15 ''B'', reply_page 16 ''C'']"



section \<open>Binary floating point, as far as \<open>should_retry\<close> needs it\<close>

text \<open>
  Python's \<open>float\<close> is the IEEE 754 binary64 format: 53 significant bits, results rounded
  to the nearest representable value, ties to the even significand. A finite double is
  identified with the rational number it denotes. \<open>binade x\<close> is the exponent \<open>e\<close> with
  \<open>2^e \<le> x < 2^(e+1)\<close> of a positive \<open>x\<close>, and \<open>round_double x\<close> the double nearest to a
  positive \<open>x\<close> of the normal range; a value of \<open>2^1024\<close> or more does not fit the format.
\<close>

definition pow2 :: "int \<Rightarrow> rat" where
  "pow2 e = 2 powi e"

definition binade :: "rat \<Rightarrow> int" where
  "binade x =
     (let (p, q) = quotient_of x; d = bitlen p - bitlen q
      in if pow2 d \<le> x then d else d - 1)"

definition round_half_even :: "rat \<Rightarrow> int" where
  "round_half_even q =
     (let f = \<lfloor>q\<rfloor>; r = q - of_int f
      in if r < 1 / 2 then f else if 1 / 2 < r then f + 1 else if even f then f else f + 1)"

definition round_double :: "rat \<Rightarrow> rat" where
  "round_double x = (let u = pow2 (binade x - 52) in of_int (round_half_even (x / u)) * u)"

text \<open>The spacing of the doubles in the binade of \<open>x\<close>.\<close>

definition ulp :: "rat \<Rightarrow> rat" where
  "ulp x = pow2 (binade x - 52)"

definition fits_double :: "rat \<Rightarrow> bool" where
  "fits_double x = (round_double x < pow2 1024)"

datatype py_error = OverflowError

text \<open>\<open>float(n)\<close> of a positive integer, as the mixed product \<open>n * 0.80\<close> converts it.\<close>

definition float_of_int :: "int \<Rightarrow> py_error + rat" where
  "float_of_int n =
     (if fits_double (of_int n) then Inr (round_double (of_int n)) else Inl OverflowError)"

text \<open>
  \<open>a / b\<close> of two integers raises when the quotient is too large for a double; only this
  is needed of the percentages that the log messages format.
\<close>

definition true_div_overflows :: "int \<Rightarrow> int \<Rightarrow> bool" where
  "true_div_overflows a b = (a \<noteq> 0 \<and> \<not> fits_double \<bar>of_int a / of_int b\<bar>)"


section \<open>Scrape worker entry point: \<open>instagram_comments_lambda.py\<close>\<close>

definition MAX_RETRY_COUNT :: int where
  "MAX_RETRY_COUNT = 5"

text \<open>The literal \<open>0.80\<close> is the double nearest to four fifths.\<close>

definition COMMENT_THRESHOLD_PERCENT :: rat where
  "COMMENT_THRESHOLD_PERCENT = round_double (4 / 5)"

text \<open>
  \<open>should_retry\<close>. The threshold is the floating-point product; the comparison of the
  integer \<open>fetched_count\<close> with it is exact, as Python compares an \<open>int\<close> with a \<open>float\<close>.
  Both log messages format \<open>fetched_count/expected_count*100\<close> before the function returns.
\<close>

definition should_retry :: "int \<Rightarrow> int \<Rightarrow> int \<Rightarrow> py_error + bool" where
  "should_retry fetched_count expected_count retry_count =
     (if retry_count \<ge> MAX_RETRY_COUNT then Inr False
      else if expected_count \<le> 0 then Inr False
      else (case float_of_int expected_count of
              Inl err \<Rightarrow> Inl err
            | Inr expected_float \<Rightarrow>
                (let threshold = round_double (expected_float * COMMENT_THRESHOLD_PERCENT)
                 in if of_int fetched_count \<ge> threshold
                    then (if true_div_overflows fetched_count expected_count
                          then Inl OverflowError else Inr False)
                    else (if true_div_overflows fetched_count expected_count
                          then Inl OverflowError else Inr True))))"

text \<open>
  The job descriptor: the keys of the request body that the handler reads. \<open>job_id\<close>
  defaults to the empty string, \<open>retry_count\<close> to 0, \<open>include_replies\<close> to true; the other
  keys may be absent.
\<close>

record job =
  job_id :: string
  callback_url :: "string option"
  cookies_release_url :: "string option"
  cookie_id :: "int option"
  post_url :: "string option"
  max_comments :: "int option"
  include_replies :: bool
  retry_count :: int

datatype lambda_event = Body job | BadBody string

datatype scraper = GraphQL | Hiker

text \<open>
  The collaborators of one invocation: the scraper that is called, the tracker API that
  reports the expected count (\<open>None\<close> when the request fails), and whether the POST that
  starts the next invocation went through.
\<close>

record world =
  scrape :: "scraper \<Rightarrow> scrape_outcome"
  expected_comment_count :: "int option"
  retry_request_ok :: "job \<Rightarrow> bool"

text \<open>
  The two payloads that \<open>post_to_callback\<close> sends: the job callback (job id, success,
  the \<open>retry_loop\<close> key when present, the \<open>error\<close> key when present, comments) and the
  release of the cookie (cookie id, success flag, failure reason).
\<close>

datatype payload =
    Callback string bool "bool option" "string option" "comment list"
  | ReleaseCookie int bool "string option"

datatype effect =
    Post string payload
  | InvokeRetry job
  | CallScraper scraper
  | FetchExpected

text \<open>
  The bodies of the four responses: the 400 for a missing \<open>post_url\<close>, the 200 of the
  blocked branch, the 200 with the result (with \<open>retry_triggered\<close>, and whether the keys
  \<open>callback_sent\<close> and \<open>cookie_released\<close> were added), and the 500 with the error text.
\<close>

datatype response =
    MissingPostUrl
  | BlockedFallback bool
  | Completed bool bool
  | ServerError string

definition response_status :: "response \<Rightarrow> nat" where
  "response_status r =
     (case r of MissingPostUrl \<Rightarrow> 400 | BlockedFallback _ \<Rightarrow> 200 | Completed _ _ \<Rightarrow> 200
      | ServerError _ \<Rightarrow> 500)"

definition ensure_cleanup ::
  "string \<Rightarrow> string option \<Rightarrow> string option \<Rightarrow> int option \<Rightarrow> scrape_result option
     \<Rightarrow> string option \<Rightarrow> bool \<Rightarrow> string option \<Rightarrow> effect list" where
  "ensure_cleanup jid cb_url rel_url cid result_data error_message cookie_success reason =
     (if truthy_str cb_url
      then [Post (the cb_url)
              (case result_data of
                 Some result \<Rightarrow> Callback jid True (Some False) None (comments result)
               | None \<Rightarrow>
                   Callback jid False None
                     (Some (if truthy_str error_message then the error_message
                            else ''Unknown error'')) [])]
      else []) @
     (if truthy_str rel_url \<and> truthy_int cid
      then [Post (the rel_url) (ReleaseCookie (the cid) cookie_success reason)]
      else [])"

text \<open>
  \<open>invoke_lambda_retry(event, retry_count)\<close> posts a copy of the event whose
  \<open>retry_count\<close> is the argument plus one.
\<close>

definition invoke_lambda_retry :: "world \<Rightarrow> job \<Rightarrow> int \<Rightarrow> bool \<times> effect list" where
  "invoke_lambda_retry w event n =
     (let retry_event = event\<lparr>retry_count := n + 1\<rparr>
      in (retry_request_ok w retry_event, [InvokeRetry retry_event]))"

text \<open>The handler of \<open>except Exception\<close> at the end of \<open>lambda_handler\<close>.\<close>

definition on_exception ::
  "string \<Rightarrow> string option \<Rightarrow> string option \<Rightarrow> int option \<Rightarrow> string \<Rightarrow> response \<times> effect list" where
  "on_exception jid cb_url rel_url cid msg =
     (ServerError msg,
      ensure_cleanup jid cb_url rel_url cid None (Some msg) False
        (Some (''Lambda error: '' @ take 200 msg)))"

definition py_error_text :: "py_error \<Rightarrow> string" where
  "py_error_text e = (case e of OverflowError \<Rightarrow> ''int too large to convert to float'')"

text \<open>
  \<open>lambda_handler\<close>, block by block; each block gives the effects in the order in which
  they happen. First the block under \<open>if use_hiker_api\<close>: the cookie is released at once
  and the local \<open>cookie_id\<close> is cleared, so that no later block releases it again.
\<close>

definition release_before_hiker :: "job \<Rightarrow> effect list \<times> int option" where
  "release_before_hiker body =
     (if truthy_str (cookies_release_url body) \<and> truthy_int (cookie_id body)
      then ([Post (the (cookies_release_url body))
               (ReleaseCookie (the (cookie_id body)) False
                  (Some ''GraphQL retries exhausted - switching to Hiker API''))],
            None)
      else ([], cookie_id body))"

text \<open>
  The handler of \<open>InstagramAPIBlockedException\<close> when the primary scraper was in use:
  release with failure, re-invocation with \<open>retry_count = MAX_RETRY_COUNT\<close>, interim
  callback, response 200.
\<close>

definition blocked_branch :: "world \<Rightarrow> job \<Rightarrow> int option \<Rightarrow> response \<times> effect list" where
  "blocked_branch w body cid =
     (let eff1 = (if truthy_str (cookies_release_url body) \<and> truthy_int cid
                  then [Post (the (cookies_release_url body))
                          (ReleaseCookie (the cid) False
                             (Some ''Instagram API blocked - possible bad cookie or rate limit''))]
                  else []);
          body1 = body\<lparr>retry_count := MAX_RETRY_COUNT\<rparr>;
          (retry_triggered, eff2) = invoke_lambda_retry w body1 (MAX_RETRY_COUNT - 1);
          eff3 = (if truthy_str (callback_url body)
                  then [Post (the (callback_url body))
                          (Callback (job_id body) True (Some True) None [])]
                  else [])
      in (BlockedFallback retry_triggered, eff1 @ eff2 @ eff3))"

text \<open>
  The part after a scrape that returned: the expected count is fetched, the threshold
  retry is decided and possibly started, and unless it was started the callback is sent
  and the cookie released.
\<close>

definition completeness_check ::
  "world \<Rightarrow> job \<Rightarrow> int option \<Rightarrow> bool \<Rightarrow> scrape_result \<Rightarrow> response \<times> effect list" where
  "completeness_check w body cid use_hiker_api result =
     (let fetched_count = total_comments result;
          expected_count = expected_comment_count w;
          decision =
            (if \<not> use_hiker_api \<and> expected_count \<noteq> None
             then should_retry fetched_count (the expected_count) (retry_count body)
             else Inr False)
      in case decision of
           Inl err \<Rightarrow>
             (let (r, eff) = on_exception (job_id body) (callback_url body)
                               (cookies_release_url body) cid (py_error_text err)
              in (r, FetchExpected # eff))
         | Inr retry_needed \<Rightarrow>
             (let (retry_triggered, eff1) =
                    (if retry_needed then invoke_lambda_retry w body (retry_count body)
                     else (False, []))
              in if \<not> retry_triggered
                 then (Completed retry_triggered True,
                       FetchExpected # eff1 @
                       ensure_cleanup (job_id body) (callback_url body)
                         (cookies_release_url body) cid (Some result) None True None)
                 else (Completed retry_triggered False, FetchExpected # eff1)))"

text \<open>
  The call of \<open>scraper.scrape_comments\<close> inside its \<open>try\<close>, with what follows it: an
  \<open>InstagramAPIBlockedException\<close> is handled by the blocked branch when the primary
  scraper was in use and re-raised otherwise; every other exception reaches the handler at
  the end of \<open>lambda_handler\<close>.
\<close>

definition scrape_and_finish ::
  "world \<Rightarrow> job \<Rightarrow> int option \<Rightarrow> bool \<Rightarrow> response \<times> effect list" where
  "scrape_and_finish w body cid use_hiker_api =
     (case scrape w (if use_hiker_api then Hiker else GraphQL) of
        ApiBlocked msg \<Rightarrow>
          (if \<not> use_hiker_api then blocked_branch w body cid
           else on_exception (job_id body) (callback_url body) (cookies_release_url body) cid msg)
      | ScrapeFailed msg \<Rightarrow>
          on_exception (job_id body) (callback_url body) (cookies_release_url body) cid msg
      | Scraped result \<Rightarrow> completeness_check w body cid use_hiker_api result)"

definition lambda_handler :: "world \<Rightarrow> lambda_event \<Rightarrow> response \<times> effect list" where
  "lambda_handler w event =
     (case event of
        BadBody msg \<Rightarrow> on_exception [] None None None msg
      | Body body \<Rightarrow>
          (if \<not> truthy_str (post_url body) then (MissingPostUrl, [])
           else
             (let use_hiker_api = (retry_count body \<ge> MAX_RETRY_COUNT);
                  (eff1, cid) = (if use_hiker_api then release_before_hiker body
                                 else ([], cookie_id body));
                  (r, eff2) = scrape_and_finish w body cid use_hiker_api
              in (r, eff1 @ CallScraper (if use_hiker_api then Hiker else GraphQL) # eff2))))"

text \<open>The callbacks and the cookie releases among the effects of an invocation.\<close>

fun is_callback :: "effect \<Rightarrow> bool" where
  "is_callback (Post url (Callback j ok loop err cs)) = True"
| "is_callback e = False"

fun is_release :: "effect \<Rightarrow> bool" where
  "is_release (Post url (ReleaseCookie cid ok reason)) = True"
| "is_release e = False"

definition callbacks_posted :: "effect list \<Rightarrow> effect list" where
  "callbacks_posted effs = filter is_callback effs"

definition releases_posted :: "effect list \<Rightarrow> effect list" where
  "releases_posted effs = filter is_release effs"

text \<open>
  The threshold retry was started: the primary scraper was in use, the tracker reported an
  expected count, \<open>should_retry\<close> said yes, and the POST of the event with the next
  \<open>retry_count\<close> went through.
\<close>

definition retry_started :: "world \<Rightarrow> job \<Rightarrow> bool \<Rightarrow> scrape_result \<Rightarrow> bool" where
  "retry_started w body use_hiker_api result =
     (\<not> use_hiker_api \<and>
      (case expected_comment_count w of
         None \<Rightarrow> False
       | Some expected_count \<Rightarrow>
           should_retry (total_comments result) expected_count (retry_count body) = Inr True \<and>
           retry_request_ok w (body\<lparr>retry_count := retry_count body + 1\<rparr>)))"

definition threshold_retry_triggered :: "world \<Rightarrow> job \<Rightarrow> bool" where
  "threshold_retry_triggered w body =
     (case scrape w GraphQL of
        Scraped result \<Rightarrow> retry_started w body (retry_count body \<ge> MAX_RETRY_COUNT) result
      | _ \<Rightarrow> False)"

text \<open>
  What the callback and the release of an invocation have to say, as a function of what
  the collaborators did. The scraper of the invocation is the fallback from
  \<open>MAX_RETRY_COUNT\<close> on. The invocation fails when the scraper raises (a blocked primary
  scraper apart, which leads to the interim callback) or when the completeness check
  raises after a scrape that returned; \<open>invocation_error\<close> is the error text then.
\<close>

definition scraper_used :: "job \<Rightarrow> scraper" where
  "scraper_used body = (if retry_count body \<ge> MAX_RETRY_COUNT then Hiker else GraphQL)"

definition completeness_error :: "world \<Rightarrow> job \<Rightarrow> scrape_result \<Rightarrow> string option" where
  "completeness_error w body result =
     (if scraper_used body = Hiker then None
      else (case expected_comment_count w of
              None \<Rightarrow> None
            | Some expected_count \<Rightarrow>
                (case should_retry (total_comments result) expected_count (retry_count body) of
                   Inl err \<Rightarrow> Some (py_error_text err)
                 | Inr retry_needed \<Rightarrow> None)))"

definition invocation_error :: "world \<Rightarrow> job \<Rightarrow> string option" where
  "invocation_error w body =
     (case scrape w (scraper_used body) of
        Scraped result \<Rightarrow> completeness_error w body result
      | ApiBlocked msg \<Rightarrow> (if scraper_used body = GraphQL then None else Some msg)
      | ScrapeFailed msg \<Rightarrow> Some msg)"

text \<open>
  The callback reports failure with the error text when the invocation failed, an interim
  success with \<open>retry_loop\<close> set when the primary scraper was blocked, and success with
  the comments of the scrape otherwise. The release reports success only when the primary
  scraper returned and the invocation did not fail; before the fallback, after a blocked
  primary scraper and after a failure it reports no success and carries the reason of the
  branch, for a failure the error text cut to 200 characters.
\<close>

definition expected_callback :: "world \<Rightarrow> job \<Rightarrow> payload" where
  "expected_callback w body =
     (case invocation_error w body of
        Some msg \<Rightarrow>
          Callback (job_id body) False None (Some (if msg \<noteq> [] then msg else ''Unknown error'')) []
      | None \<Rightarrow>
          (case scrape w (scraper_used body) of
             Scraped result \<Rightarrow> Callback (job_id body) True (Some False) None (comments result)
           | _ \<Rightarrow> Callback (job_id body) True (Some True) None []))"

definition expected_release :: "world \<Rightarrow> job \<Rightarrow> payload" where
  "expected_release w body =
     (if scraper_used body = Hiker
      then ReleaseCookie (the (cookie_id body)) False
             (Some ''GraphQL retries exhausted - switching to Hiker API'')
      else (case invocation_error w body of
              Some msg \<Rightarrow>
                ReleaseCookie (the (cookie_id body)) False (Some (''Lambda error: '' @ take 200 msg))
            | None \<Rightarrow>
                (case scrape w GraphQL of
                   Scraped result \<Rightarrow> ReleaseCookie (the (cookie_id body)) True None
                 | _ \<Rightarrow>
                     ReleaseCookie (the (cookie_id body)) False
                       (Some ''Instagram API blocked - possible bad cookie or rate limit''))))"


text \<open>
  Concrete invocations: the job of scenario C (70 of 100 expected comments fetched at
  \<open>retry_count = 1\<close>, with a callback URL and a held cookie), the same job at
  \<open>retry_count = 5\<close>, and worlds in which the primary scraper returns 70 comments or is
  blocked, and the re-invocation request succeeds or fails.
\<close>

definition scenario_job :: job where
  "scenario_job =
     \<lparr>job_id = ''job-1'',
      callback_url = Some ''https://caller.example/hook'',
      cookies_release_url = Some ''https://pool.example/release-cookie'',
      cookie_id = Some 7,
      post_url = Some ''https://www.instagram.com/reel/ABC123/'',
      max_comments = None, include_replies = True, retry_count = 1\<rparr>"

definition seventy_comments :: scrape_result where
  "seventy_comments =
     \<lparr>total_comments = 70,
      comments = map (\<lambda>i. \<lparr>comment_type = ''comment'', comment_id = str_nat i,
                               parent_comment_id = []\<rparr>) [1 ..< 71]\<rparr>"

definition scenario_world :: "bool \<Rightarrow> world" where
  "scenario_world retry_ok =
     \<lparr>scrape = (\<lambda>which. Scraped seventy_comments),
      expected_comment_count = Some 100,
      retry_request_ok = (\<lambda>event. retry_ok)\<rparr>"

definition blocked_world :: world where
  "blocked_world =
     \<lparr>scrape = (\<lambda>which. case which of
                   GraphQL \<Rightarrow> ApiBlocked ''Instagram API returned invalid JSON after 3 attempts.''
                 | Hiker \<Rightarrow> Scraped seventy_comments),
      expected_comment_count = Some 100,
      retry_request_ok = (\<lambda>event. True)\<rparr>"


section \<open>Properties of the resource pool manager\<close>

lemma acc_id_write_field [simp]: "acc_id (write_field obj f row) = acc_id row"
  by (cases f) simp_all

lemma acc_id_fold_write [simp]: "acc_id (fold (write_field obj) fs row) = acc_id row"
  by (induction fs arbitrary: row) simp_all

lemma acc_id_write_row [simp]: "acc_id (write_row fs obj row) = acc_id row"
  by (simp add: write_row_def)

lemma find_map_keep_id:
  "(\<And>x. acc_id (f x) = acc_id x) \<Longrightarrow>
   find (\<lambda>a. acc_id a = cid) (map f xs) = map_option f (find (\<lambda>a. acc_id a = cid) xs)"
  by (induction xs) simp_all

lemma get_by_id_save:
  "get_by_id cid (save fs obj st) = map_option (write_row fs obj) (get_by_id cid st)"
  by (simp add: get_by_id_def save_def find_map_keep_id)

lemma get_by_id_acc_id: "get_by_id cid st = Some a \<Longrightarrow> acc_id a = cid"
  by (auto simp: get_by_id_def find_Some_iff)

lemma find_in_set: "find P xs = Some a \<Longrightarrow> a \<in> set xs \<and> P a"
  by (induction xs) (auto split: if_splits)

lemma get_platform_code_None_iff:
  "get_platform_code p = None \<longleftrightarrow> lower p \<notin> {''instagram'', ''linkedin'', ''twitter''}"
  by (auto simp: get_platform_code_def PLATFORM_MAP_def)

text \<open>
  Claim C10. A platform name that is none of instagram, linkedin, twitter after
  lower-casing has no platform code, and \<open>allocate_cookie\<close> returns \<open>None\<close> at once: the
  store it returns is the store it was given, rows and journal alike, so no row was
  selected, written or validated.
\<close>

theorem allocate_unknown_platform:
  "lower platform_name \<notin> {''instagram'', ''linkedin'', ''twitter''} \<Longrightarrow>
   allocate_cookie v now platform_name u st = (None, st)"
  using get_platform_code_None_iff [of platform_name] by (simp add: allocate_cookie_def)

theorem allocate_unknown_platform_witness:
  "lower ''tiktok'' \<notin> {''instagram'', ''linkedin'', ''twitter''} \<and>
   allocate_cookie always_valid 100 ''tiktok'' None pool_example = (None, pool_example)"
proof -
  have h: "lower ''tiktok'' \<notin> {''instagram'', ''linkedin'', ''twitter''}"
    by (simp add: lower_def lower_char_def)
  show ?thesis using h allocate_unknown_platform [OF h] by simp
qed

text \<open>
  Claim C4, as the code has it. An id with no row makes \<open>release_cookie\<close> return false and
  leave the store as it was, whatever the success flag. For an id with a row, a successful
  release returns true, clears \<open>in_use\<close> and stamps \<open>last_used_at\<close>; the failure counter and
  the failure reason are reset only by \<open>reset_failures\<close>, whose guard fires when the counter
  is positive: then the counter becomes 0 and the reason NULL, otherwise both columns keep
  their values. The rows of every other id read as before.
\<close>

theorem release_success:
  "(get_by_id cid st = None \<longrightarrow> release_cookie now cid ok reason st = (False, st)) \<and>
   (\<forall>a. get_by_id cid st = Some a \<longrightarrow>
      fst (release_cookie now cid True reason st) = True \<and>
      get_by_id cid (snd (release_cookie now cid True reason st)) =
        Some (a\<lparr>in_use := False, last_used_at := Some now,
                consecutive_failures := (if consecutive_failures a > 0 then 0 else consecutive_failures a),
                failure_reason := (if consecutive_failures a > 0 then None else failure_reason a)\<rparr>) \<and>
      (\<forall>other. other \<noteq> cid \<longrightarrow>
         get_by_id other (snd (release_cookie now cid True reason st)) = get_by_id other st))"
proof (intro conjI impI allI)
  assume "get_by_id cid st = None"
  then show "release_cookie now cid ok reason st = (False, st)"
    by (simp add: release_cookie_def)
next
  fix a assume a: "get_by_id cid st = Some a"
  then show "fst (release_cookie now cid True reason st) = True"
    by (simp add: release_cookie_def Let_def split: prod.splits)
next
  fix a assume a: "get_by_id cid st = Some a"
  have id: "acc_id a = cid" using a by (rule get_by_id_acc_id)
  show "get_by_id cid (snd (release_cookie now cid True reason st)) =
        Some (a\<lparr>in_use := False, last_used_at := Some now,
                consecutive_failures := (if consecutive_failures a > 0 then 0 else consecutive_failures a),
                failure_reason := (if consecutive_failures a > 0 then None else failure_reason a)\<rparr>)"
    using a id by (simp add: release_cookie_def reset_failures_def Let_def get_by_id_save write_row_def)
next
  fix a other assume a: "get_by_id cid st = Some a" and o: "other \<noteq> cid"
  have id: "acc_id a = cid" using a by (rule get_by_id_acc_id)
  show "get_by_id other (snd (release_cookie now cid True reason st)) = get_by_id other st"
  proof (cases "get_by_id other st")
    case None
    then show ?thesis using a id by (simp add: release_cookie_def reset_failures_def Let_def get_by_id_save)
  next
    case (Some b)
    then have "acc_id b = other" by (rule get_by_id_acc_id)
    then show ?thesis using a id o Some
      by (simp add: release_cookie_def reset_failures_def Let_def get_by_id_save write_row_def)
  qed
qed

theorem release_success_witness:
  "get_by_id 5 pool_example =
     Some (mk_account 5 ''IG'' False False None 3 (Some ''Banned after 3 failures: blocked'')) \<and>
   get_by_id 9 pool_example = None \<and>
   release_cookie 100 9 True None pool_example = (False, pool_example) \<and>
   fst (release_cookie 100 5 True None pool_example) = True \<and>
   get_by_id 5 (snd (release_cookie 100 5 True None pool_example)) =
     Some (mk_account 5 ''IG'' False False (Some 100) 0 None) \<and>
   get_by_id 1 (snd (release_cookie 100 5 True None pool_example)) = get_by_id 1 pool_example"
proof -
  have h1: "get_by_id 5 pool_example =
     Some (mk_account 5 ''IG'' False False None 3 (Some ''Banned after 3 failures: blocked''))"
    by code_simp
  have h2: "get_by_id 9 pool_example = None" by code_simp
  have e: "mk_account 5 ''IG'' False False None 3 (Some ''Banned after 3 failures: blocked'')
            \<lparr>in_use := False, last_used_at := Some 100, consecutive_failures := 0,
             failure_reason := None\<rparr> = mk_account 5 ''IG'' False False (Some 100) 0 None"
    by (simp add: mk_account_def)
  show ?thesis
    using h1 h2 e release_success [of 9 pool_example 100 True None]
      release_success [of 5 pool_example 100 True None]
    by (simp add: mk_account_def)
qed

text \<open>
  The claim as stated includes a record whose counter is already 0 and whose failure reason
  is set. On such a record the guard of \<open>reset_failures\<close> is false and the reason survives
  the successful release.
\<close>

theorem release_success_counterexample:
  "get_by_id 1 stale_store = Some (mk_account 1 ''IG'' True True None 0 (Some ''checkpoint required'')) \<and>
   fst (release_cookie 100 1 True None stale_store) = True \<and>
   map_option failure_reason (get_by_id 1 (snd (release_cookie 100 1 True None stale_store)))
     = Some (Some ''checkpoint required'')"
  by code_simp

lemma logged_in_fold_write:
  "logged_in (fold (write_field obj) fs row) =
     (if F_logged_in \<in> set fs then logged_in obj else logged_in row)"
proof (induction fs arbitrary: row)
  case Nil
  then show ?case by simp
next
  case (Cons f fs)
  then show ?case by (cases f) simp_all
qed

lemma logged_in_write_row:
  "logged_in (write_row fs obj row) =
     (if acc_id row = acc_id obj \<and> F_logged_in \<in> set fs then logged_in obj else logged_in row)"
  by (simp add: write_row_def logged_in_fold_write)

lemma banned_save_other:
  "F_logged_in \<notin> set fs \<Longrightarrow> banned cid st \<Longrightarrow> banned cid (save fs obj st)"
  by (auto simp: banned_def save_def list_all_iff logged_in_write_row)

lemma banned_save_false:
  "\<not> logged_in obj \<Longrightarrow> banned cid st \<Longrightarrow> banned cid (save fs obj st)"
  by (auto simp: banned_def save_def list_all_iff logged_in_write_row)

lemma save_bans:
  "F_logged_in \<in> set fs \<Longrightarrow> \<not> logged_in obj \<Longrightarrow> banned (acc_id obj) (save fs obj st)"
  by (auto simp: banned_def save_def list_all_iff logged_in_write_row)

lemma banned_journal [simp]: "banned cid (st\<lparr>journal := j\<rparr>) = banned cid st"
  by (simp add: banned_def)

lemma banned_mark_logged_out:
  "banned cid st \<Longrightarrow> banned cid (snd (mark_logged_out r (self, st)))"
  by (simp add: mark_logged_out_def Let_def banned_save_false)

lemma banned_increment_failures:
  "banned cid st \<Longrightarrow> banned cid (snd (increment_failures r (self, st)))"
  by (simp add: increment_failures_def mark_logged_out_def Let_def banned_save_false
        banned_save_other split: prod.splits)

lemma banned_reset_failures:
  "banned cid st \<Longrightarrow> banned cid (snd (reset_failures (self, st)))"
  by (simp add: reset_failures_def Let_def banned_save_other)

lemma banned_release:
  assumes b: "banned cid st"
  shows "banned cid (snd (release_cookie now c ok r st))"
proof (cases "get_by_id c st")
  case None
  then show ?thesis using b by (simp add: release_cookie_def)
next
  case (Some a)
  let ?a1 = "a\<lparr>in_use := False, last_used_at := Some now\<rparr>"
  show ?thesis
  proof (cases ok)
    case True
    obtain a2 st2 where r: "reset_failures (?a1, st) = (a2, st2)" by (cases "reset_failures (?a1, st)")
    then have "banned cid st2" using banned_reset_failures [OF b, of ?a1] by simp
    then show ?thesis using Some True r
      by (simp add: release_cookie_def Let_def banned_save_other)
  next
    case False
    obtain a2 st2 where r: "increment_failures r (?a1, st) = (a2, st2)"
      by (cases "increment_failures r (?a1, st)")
    then have "banned cid st2" using banned_increment_failures [OF b, of r ?a1] by simp
    then show ?thesis using Some False r
      by (simp add: release_cookie_def Let_def banned_save_other)
  qed
qed

lemma select_account_Some:
  "select_account code st = Some a \<Longrightarrow> a \<in> set (rows st) \<and> eligible code a"
proof -
  assume s: "select_account code st = Some a"
  then obtain rest where
    "sort_key (order_key (nulls_first st)) (filter (eligible code) (rows st)) = a # rest"
    by (auto simp: select_account_def split: list.splits)
  then have "a \<in> set (sort_key (order_key (nulls_first st)) (filter (eligible code) (rows st)))"
    by simp
  then show ?thesis by simp
qed

lemma banned_allocate:
  "banned cid st \<Longrightarrow> banned cid (snd (allocate_cookie v now p u st))"
proof -
  assume b: "banned cid st"
  show ?thesis
  proof (cases "get_platform_code p")
    case None
    then show ?thesis using b by (simp add: allocate_cookie_def)
  next
    case (Some code)
    show ?thesis
    proof (cases "select_account code st")
      case None
      then show ?thesis using b Some by (simp add: allocate_cookie_def)
    next
      case (Some a)
      note sel = Some
      obtain cs csrf where cc: "convert_cookies_to_string (cookies a) = (cs, csrf)"
        by (cases "convert_cookies_to_string (cookies a)")
      obtain ok reason n where vv: "v cs csrf p (acc_id a) u = (ok, reason, n)"
        by (cases "v cs csrf p (acc_id a) u")
      let ?st1 = "save [F_in_use] (a\<lparr>in_use := True\<rparr>) st"
      let ?st2 = "?st1\<lparr>journal := journal ?st1 @ [Validated cs csrf p (acc_id a) u]\<rparr>"
      have b2: "banned cid ?st2" using b by (simp add: banned_save_other)
      show ?thesis
      proof (cases ok)
        case True
        then show ?thesis using \<open>get_platform_code p = Some code\<close> sel cc vv b2
          by (simp add: allocate_cookie_def Let_def banned_save_other)
      next
        case False
        let ?a2 = "a\<lparr>in_use := True\<rparr>\<lparr>logged_in := False, in_use := False\<rparr>"
        define msg where "msg = Some (''Pre-validation failed: '' @ reason)"
        obtain a3 st3 where r: "increment_failures msg (?a2, ?st2) = (a3, st3)"
          by (cases "increment_failures msg (?a2, ?st2)")
        have l3: "\<not> logged_in a3" using r
          by (auto simp: increment_failures_def mark_logged_out_def Let_def split: if_splits)
        have "banned cid st3"
          using banned_increment_failures [OF b2, of msg ?a2] r by simp
        then have "banned cid (save [F_logged_in, F_in_use] a3 st3)"
          using l3 by (simp add: banned_save_false)
        moreover have "snd (allocate_cookie v now p u st) = save [F_logged_in, F_in_use] a3 st3"
          using \<open>get_platform_code p = Some code\<close> sel cc vv False r
          unfolding msg_def allocate_cookie_def by (simp add: Let_def)
        ultimately show ?thesis by simp
      qed
    qed
  qed
qed

lemma allocate_result_eligible:
  "allocate_cookie v now p u st = (Some r, st') \<Longrightarrow>
   \<exists>code a. get_platform_code p = Some code \<and> select_account code st = Some a \<and>
            a_cookie_id r = acc_id a"
  by (auto simp: allocate_cookie_def Let_def split: option.splits prod.splits if_splits)

lemma banned_never_allocated:
  "banned cid st \<Longrightarrow> allocate_cookie v now p u st = (Some r, st') \<Longrightarrow> a_cookie_id r \<noteq> cid"
proof -
  assume b: "banned cid st" and al: "allocate_cookie v now p u st = (Some r, st')"
  from allocate_result_eligible [OF al] obtain code a where
    s: "select_account code st = Some a" and i: "a_cookie_id r = acc_id a" by blast
  from select_account_Some [OF s] have "a \<in> set (rows st)" "logged_in a"
    by (simp_all add: eligible_def)
  with b have "acc_id a \<noteq> cid" by (auto simp: banned_def list_all_iff)
  with i show ?thesis by simp
qed

lemma banned_run_ops:
  "banned cid st \<Longrightarrow> Some r \<in> set (fst (run_ops ops st)) \<Longrightarrow> a_cookie_id r \<noteq> cid"
proof (induction ops arbitrary: st)
  case Nil
  then show ?case by simp
next
  case (Cons op ops)
  show ?case
  proof (cases op)
    case (Allocate v now p u)
    obtain r1 st1 where a: "allocate_cookie v now p u st = (r1, st1)"
      by (cases "allocate_cookie v now p u st")
    obtain rs st2 where rr: "run_ops ops st1 = (rs, st2)" by (cases "run_ops ops st1")
    have b1: "banned cid st1" using banned_allocate [OF Cons.prems(1), of v now p u] a by simp
    from Cons.prems(2) Allocate a rr have "Some r = r1 \<or> Some r \<in> set rs" by auto
    then show ?thesis
    proof
      assume "Some r = r1"
      then show ?thesis using banned_never_allocated [OF Cons.prems(1)] a by metis
    next
      assume "Some r \<in> set rs"
      then show ?thesis using Cons.IH [OF b1] rr by simp
    qed
  next
    case (Release now c ok reason)
    have b1: "banned cid (snd (release_cookie now c ok reason st))"
      using Cons.prems(1) by (rule banned_release)
    from Cons.prems(2) Release show ?thesis using Cons.IH [OF b1] by simp
  qed
qed

lemma increment_failures_bans:
  "consecutive_failures self + 1 \<ge> 3 \<Longrightarrow>
   \<not> logged_in (fst (increment_failures r (self, st))) \<and>
   banned (acc_id self) (snd (increment_failures r (self, st)))"
proof -
  assume c: "consecutive_failures self + 1 \<ge> 3"
  define msg where "msg = Some (''Banned after 3 failures: '' @ fmt_opt r)"
  define self2 where "self2 =
    (if truthy_str r then self\<lparr>consecutive_failures := consecutive_failures self + 1, failure_reason := r\<rparr>
     else self\<lparr>consecutive_failures := consecutive_failures self + 1\<rparr>)"
  obtain self3 st3 where m: "mark_logged_out msg (self2, st) = (self3, st3)"
    by (cases "mark_logged_out msg (self2, st)")
  have i: "increment_failures r (self, st) =
           (self3, save [F_consecutive_failures, F_failure_reason] self3 st3)"
    using c m unfolding increment_failures_def msg_def self2_def by (simp add: Let_def)
  have id2: "acc_id self2 = acc_id self" by (simp add: self2_def)
  have l: "\<not> logged_in self3" "acc_id self3 = acc_id self"
    using m id2 by (auto simp: mark_logged_out_def Let_def split: if_splits)
  have "banned (acc_id self) st3"
    using m id2 save_bans [of "[F_logged_in, F_failure_reason]" self3 st] l
    by (auto simp: mark_logged_out_def Let_def split: if_splits)
  then show ?thesis using i l by (simp add: banned_save_other)
qed

lemma cf_increment_failures:
  "consecutive_failures (fst (increment_failures r (self, st))) = consecutive_failures self + 1"
  by (simp add: increment_failures_def mark_logged_out_def Let_def split: prod.splits)

lemma release_failure_step:
  assumes a: "get_by_id cid st = Some a"
  shows "\<exists>a'. get_by_id cid (snd (release_cookie now cid False r st)) = Some a' \<and>
              consecutive_failures a' = consecutive_failures a + 1"
  using a get_by_id_acc_id [OF a]
  by (simp add: release_cookie_def increment_failures_def mark_logged_out_def Let_def
        get_by_id_save write_row_def split: prod.splits)

lemma release_failure_bans:
  assumes a: "get_by_id cid st = Some a" and c: "consecutive_failures a + 1 \<ge> 3"
  shows "banned cid (snd (release_cookie now cid False r st))"
proof -
  let ?a1 = "a\<lparr>in_use := False, last_used_at := Some now\<rparr>"
  have id: "acc_id ?a1 = cid" using get_by_id_acc_id [OF a] by simp
  have c1: "consecutive_failures ?a1 + 1 \<ge> 3" using c by simp
  obtain a2 st2 where i: "increment_failures r (?a1, st) = (a2, st2)"
    by (cases "increment_failures r (?a1, st)")
  have "banned cid st2" using increment_failures_bans [OF c1, of r st] i id by simp
  then show ?thesis using a i by (simp add: release_cookie_def Let_def banned_save_other)
qed

lemma banned_get_by_id: "banned cid st \<Longrightarrow> get_by_id cid st = Some a \<Longrightarrow> \<not> logged_in a"
  by (auto simp: banned_def get_by_id_def list_all_iff dest!: find_in_set)

text \<open>
  Claim C2. Whenever \<open>increment_failures\<close> leaves the counter at 3 or more, the instance
  is logged out. Three failed releases in a row of an existing record whose counter is not
  negative leave its row logged out, and in every run of pool operations after them no
  allocation returns that record's id.
\<close>

theorem three_failures_ban:
  assumes a: "get_by_id cid st = Some a" and c: "0 \<le> consecutive_failures a"
  shows
    "(\<forall>self s r. consecutive_failures (fst (increment_failures r (self, s))) \<ge> 3 \<longrightarrow>
        \<not> logged_in (fst (increment_failures r (self, s)))) \<and>
     (\<exists>a'. get_by_id cid
             (snd (release_cookie t3 cid False r3
               (snd (release_cookie t2 cid False r2
                 (snd (release_cookie t1 cid False r1 st)))))) = Some a' \<and> \<not> logged_in a') \<and>
     (\<forall>ops r. Some r \<in> set (fst (run_ops ops
             (snd (release_cookie t3 cid False r3
               (snd (release_cookie t2 cid False r2
                 (snd (release_cookie t1 cid False r1 st)))))))) \<longrightarrow> a_cookie_id r \<noteq> cid)"
proof -
  let ?s1 = "snd (release_cookie t1 cid False r1 st)"
  let ?s2 = "snd (release_cookie t2 cid False r2 ?s1)"
  let ?s3 = "snd (release_cookie t3 cid False r3 ?s2)"
  from release_failure_step [OF a] obtain a1 where
    a1: "get_by_id cid ?s1 = Some a1" "consecutive_failures a1 = consecutive_failures a + 1" by blast
  from release_failure_step [OF a1(1)] obtain a2 where
    a2: "get_by_id cid ?s2 = Some a2" "consecutive_failures a2 = consecutive_failures a1 + 1" by blast
  from release_failure_step [OF a2(1)] obtain a3 where
    a3: "get_by_id cid ?s3 = Some a3" by blast
  have "consecutive_failures a2 + 1 \<ge> 3" using a1(2) a2(2) c by simp
  then have b: "banned cid ?s3" using a2(1) by (rule release_failure_bans [rotated])
  have p1: "\<forall>self s r. consecutive_failures (fst (increment_failures r (self, s))) \<ge> 3 \<longrightarrow>
        \<not> logged_in (fst (increment_failures r (self, s)))"
    using increment_failures_bans by (simp add: cf_increment_failures)
  have p2: "\<exists>a'. get_by_id cid ?s3 = Some a' \<and> \<not> logged_in a'"
    using a3 banned_get_by_id [OF b] by blast
  have p3: "\<forall>ops r. Some r \<in> set (fst (run_ops ops ?s3)) \<longrightarrow> a_cookie_id r \<noteq> cid"
    using banned_run_ops [OF b] by blast
  from p1 p2 p3 show ?thesis by blast
qed

theorem three_failures_ban_witness:
  "get_by_id 2 pool_example = Some (mk_account 2 ''IG'' True False None 0 None) \<and>
   0 \<le> consecutive_failures (mk_account 2 ''IG'' True False None 0 None) \<and>
   (\<exists>a'. get_by_id 2
           (snd (release_cookie 30 2 False (Some ''blocked'')
             (snd (release_cookie 20 2 False (Some ''blocked'')
               (snd (release_cookie 10 2 False (Some ''blocked'') pool_example)))))) = Some a' \<and>
         \<not> logged_in a') \<and>
   map (map_option a_cookie_id)
     (fst (run_ops [Allocate always_valid 40 ''instagram'' None,
                    Allocate always_valid 41 ''instagram'' None]
        (snd (release_cookie 30 2 False (Some ''blocked'')
          (snd (release_cookie 20 2 False (Some ''blocked'')
            (snd (release_cookie 10 2 False (Some ''blocked'') pool_example)))))))) = [Some 1, None]"
proof -
  have h1: "get_by_id 2 pool_example = Some (mk_account 2 ''IG'' True False None 0 None)"
    by code_simp
  have h2: "0 \<le> consecutive_failures (mk_account 2 ''IG'' True False None 0 None)"
    by (simp add: mk_account_def)
  have r: "map (map_option a_cookie_id)
     (fst (run_ops [Allocate always_valid 40 ''instagram'' None,
                    Allocate always_valid 41 ''instagram'' None]
        (snd (release_cookie 30 2 False (Some ''blocked'')
          (snd (release_cookie 20 2 False (Some ''blocked'')
            (snd (release_cookie 10 2 False (Some ''blocked'') pool_example)))))))) = [Some 1, None]"
    by code_simp
  from three_failures_ban [OF h1 h2, of 30 "Some ''blocked''" 20 "Some ''blocked''" 10 "Some ''blocked''"]
  show ?thesis using h1 h2 r by blast
qed

lemma select_account_None_iff:
  "select_account code st = None \<longleftrightarrow> (\<forall>a\<in>set (rows st). \<not> eligible code a)"
proof -
  let ?q = "sort_key (order_key (nulls_first st)) (filter (eligible code) (rows st))"
  have "select_account code st = None \<longleftrightarrow> ?q = []"
    by (simp add: select_account_def split: list.splits)
  also have "\<dots> \<longleftrightarrow> length ?q = 0"
    by (rule length_0_conv [symmetric])
  also have "\<dots> \<longleftrightarrow> filter (eligible code) (rows st) = []" by simp
  also have "\<dots> \<longleftrightarrow> (\<forall>a\<in>set (rows st). \<not> eligible code a)"
    by (simp add: filter_empty_conv)
  finally show ?thesis .
qed

lemma order_key_le:
  "order_key nf a \<le> order_key nf b \<longleftrightarrow> before_or_equal nf (last_used_at a) (last_used_at b)"
  by (auto simp: order_key_def before_or_equal_def less_eq_prod_def split: option.splits)

lemma select_account_least:
  assumes s: "select_account code st = Some a" and b: "b \<in> set (rows st)" "eligible code b"
  shows "before_or_equal (nulls_first st) (last_used_at a) (last_used_at b)"
proof -
  let ?k = "order_key (nulls_first st)"
  let ?q = "sort_key ?k (filter (eligible code) (rows st))"
  from s obtain rest where q: "?q = a # rest"
    by (auto simp: select_account_def split: list.splits)
  have "sorted (map ?k ?q)" by (rule sorted_sort_key)
  then have le: "\<forall>y\<in>set rest. ?k a \<le> ?k y" by (simp add: q)
  have "b \<in> set ?q" using b by simp
  then have "b = a \<or> b \<in> set rest" by (simp add: q)
  then have "?k a \<le> ?k b" using le by auto
  then show ?thesis by (simp add: order_key_le)
qed

lemma journal_save: "journal (save fs obj st) = journal st @ [Saved fs obj]"
  by (simp add: save_def)

lemma journal_increment_failures:
  "\<exists>rest. journal (snd (increment_failures r (self, st))) = journal st @ rest"
  by (simp add: increment_failures_def mark_logged_out_def Let_def journal_save)

lemma allocate_journal:
  assumes pc: "get_platform_code p = Some code" and s: "select_account code st = Some a"
  shows "\<exists>rest. journal (snd (allocate_cookie v now p u st)) =
           journal st @
             Saved [F_in_use] (a\<lparr>in_use := True\<rparr>) #
             Validated (fst (convert_cookies_to_string (cookies a)))
                       (snd (convert_cookies_to_string (cookies a))) p (acc_id a) u # rest"
proof -
  obtain cs csrf where cc: "convert_cookies_to_string (cookies a) = (cs, csrf)"
    by (cases "convert_cookies_to_string (cookies a)")
  obtain ok reason n where vv: "v cs csrf p (acc_id a) u = (ok, reason, n)"
    by (cases "v cs csrf p (acc_id a) u")
  let ?st1 = "save [F_in_use] (a\<lparr>in_use := True\<rparr>) st"
  let ?st2 = "?st1\<lparr>journal := journal ?st1 @ [Validated cs csrf p (acc_id a) u]\<rparr>"
  have j2: "journal ?st2 =
     journal st @ [Saved [F_in_use] (a\<lparr>in_use := True\<rparr>), Validated cs csrf p (acc_id a) u]"
    by (simp add: journal_save)
  show ?thesis
  proof (cases ok)
    case True
    then show ?thesis using pc s cc vv by (simp add: allocate_cookie_def Let_def journal_save)
  next
    case False
    let ?a2 = "a\<lparr>in_use := True\<rparr>\<lparr>logged_in := False, in_use := False\<rparr>"
    define msg where "msg = Some (''Pre-validation failed: '' @ reason)"
    obtain a3 st3 where r: "increment_failures msg (?a2, ?st2) = (a3, st3)"
      by (cases "increment_failures msg (?a2, ?st2)")
    from journal_increment_failures [of msg ?a2 ?st2] r obtain rest where
      "journal st3 = journal ?st2 @ rest" by auto
    then have j3: "journal (save [F_logged_in, F_in_use] a3 st3) =
       journal st @ Saved [F_in_use] (a\<lparr>in_use := True\<rparr>) # Validated cs csrf p (acc_id a) u #
         (rest @ [Saved [F_logged_in, F_in_use] a3])"
      using j2 by (simp add: journal_save)
    have "snd (allocate_cookie v now p u st) = save [F_logged_in, F_in_use] a3 st3"
      using pc s cc vv False r unfolding msg_def allocate_cookie_def by (simp add: Let_def)
    then show ?thesis using j3 cc by simp
  qed
qed

lemma rows_save: "rows (save fs obj st) = map (write_row fs obj) (rows st)"
  by (simp add: save_def)

lemma nulls_first_save [simp]: "nulls_first (save fs obj st) = nulls_first st"
  by (simp add: save_def)

text \<open>
  An allocation whose validation succeeds: the rows of the selected id are in use and
  carry the time of the validation, every other row is as before, and the operation added
  the write of \<open>in_use\<close>, then the validator call, then the write of the validation time.
\<close>

lemma allocate_valid:
  assumes pc: "get_platform_code p = Some code" and s: "select_account code st = Some a"
    and cc: "convert_cookies_to_string (cookies a) = (cs, csrf)"
    and vv: "v cs csrf p (acc_id a) u = (True, reason, n)"
  shows "allocate_cookie v now p u st =
     (Some \<lparr>a_cookie_id = acc_id a, a_username = username a, a_platform = p, a_cookies = cs,
            a_csrf_token = csrf, a_comment_count = n\<rparr>,
      st\<lparr>rows := map (\<lambda>r. if acc_id r = acc_id a
                          then r\<lparr>in_use := True, last_validated_at := Some now\<rparr> else r) (rows st),
         journal := journal st @
           [Saved [F_in_use] (a\<lparr>in_use := True\<rparr>),
            Validated cs csrf p (acc_id a) u,
            Saved [F_last_validated_at] (a\<lparr>in_use := True, last_validated_at := Some now\<rparr>)]\<rparr>)"
  using pc s cc vv
  by (simp add: allocate_cookie_def Let_def save_def write_row_def comp_def cong: if_cong)

text \<open>
  An allocation whose validation fails returns nothing and leaves the rows of the selected
  id logged out and not in use; the rows of the other ids are as before.
\<close>

lemma write_row_other: "acc_id r \<noteq> acc_id obj \<Longrightarrow> write_row fs obj r = r"
  by (simp add: write_row_def)

lemma rows_save_others:
  assumes "acc_id obj = i"
  shows "filter (\<lambda>r. acc_id r \<noteq> i) (rows (save fs obj st)) =
         filter (\<lambda>r. acc_id r \<noteq> i) (rows st)"
proof -
  have "map (write_row fs obj) (filter (\<lambda>r. acc_id r \<noteq> i) (rows st)) =
        filter (\<lambda>r. acc_id r \<noteq> i) (rows st)"
    using assms by (intro map_idI) (simp add: write_row_def)
  then show ?thesis by (simp add: rows_save filter_map comp_def)
qed

lemma acc_id_mark_logged_out [simp]:
  "acc_id (fst (mark_logged_out r (self, st))) = acc_id self"
  by (simp add: mark_logged_out_def Let_def)

lemma rows_mark_logged_out_others:
  "filter (\<lambda>r. acc_id r \<noteq> acc_id self) (rows (snd (mark_logged_out r (self, st)))) =
   filter (\<lambda>r. acc_id r \<noteq> acc_id self) (rows st)"
  by (simp add: mark_logged_out_def Let_def rows_save_others)

lemma increment_failures_self:
  "increment_failures msg (self, st) = (a3, st3) \<Longrightarrow>
   acc_id a3 = acc_id self \<and> in_use a3 = in_use self \<and> (\<not> logged_in self \<longrightarrow> \<not> logged_in a3)"
  by (auto simp: increment_failures_def mark_logged_out_def Let_def split: if_splits)

lemma rows_increment_failures_others:
  "filter (\<lambda>r. acc_id r \<noteq> acc_id self) (rows (snd (increment_failures msg (self, st)))) =
   filter (\<lambda>r. acc_id r \<noteq> acc_id self) (rows st)"
  by (simp add: increment_failures_def mark_logged_out_def Let_def rows_save_others)

lemma allocate_invalid:
  assumes pc: "get_platform_code p = Some code" and s: "select_account code st = Some a"
    and cc: "convert_cookies_to_string (cookies a) = (cs, csrf)"
    and vv: "v cs csrf p (acc_id a) u = (False, reason, n)"
  shows "fst (allocate_cookie v now p u st) = None \<and>
     (\<forall>r\<in>set (rows (snd (allocate_cookie v now p u st))).
        acc_id r = acc_id a \<longrightarrow> \<not> in_use r \<and> \<not> logged_in r) \<and>
     filter (\<lambda>r. acc_id r \<noteq> acc_id a) (rows (snd (allocate_cookie v now p u st))) =
     filter (\<lambda>r. acc_id r \<noteq> acc_id a) (rows st)"
proof -
  let ?st1 = "save [F_in_use] (a\<lparr>in_use := True\<rparr>) st"
  let ?st2 = "?st1\<lparr>journal := journal ?st1 @ [Validated cs csrf p (acc_id a) u]\<rparr>"
  let ?a2 = "a\<lparr>in_use := True\<rparr>\<lparr>logged_in := False, in_use := False\<rparr>"
  define msg where "msg = Some (''Pre-validation failed: '' @ reason)"
  obtain a3 st3 where r: "increment_failures msg (?a2, ?st2) = (a3, st3)"
    by (cases "increment_failures msg (?a2, ?st2)")
  from increment_failures_self [OF r]
  have a3: "acc_id a3 = acc_id a" "\<not> in_use a3" "\<not> logged_in a3" by simp_all
  have al: "allocate_cookie v now p u st = (None, save [F_logged_in, F_in_use] a3 st3)"
    using pc s cc vv r unfolding msg_def allocate_cookie_def by (simp add: Let_def)
  have o3: "filter (\<lambda>r. acc_id r \<noteq> acc_id a) (rows st3) =
            filter (\<lambda>r. acc_id r \<noteq> acc_id a) (rows ?st2)"
    using rows_increment_failures_others [of ?a2 msg ?st2] r by simp
  have o2: "filter (\<lambda>r. acc_id r \<noteq> acc_id a) (rows ?st2) =
            filter (\<lambda>r. acc_id r \<noteq> acc_id a) (rows st)"
    using rows_save_others [of "a\<lparr>in_use := True\<rparr>" "acc_id a" "[F_in_use]" st] by simp
  have o4: "filter (\<lambda>r. acc_id r \<noteq> acc_id a) (rows (save [F_logged_in, F_in_use] a3 st3)) =
            filter (\<lambda>r. acc_id r \<noteq> acc_id a) (rows st3)"
    using rows_save_others [OF a3(1)] by simp
  have m: "\<forall>r\<in>set (rows (save [F_logged_in, F_in_use] a3 st3)).
             acc_id r = acc_id a \<longrightarrow> \<not> in_use r \<and> \<not> logged_in r"
    using a3 by (auto simp: rows_save write_row_def)
  show ?thesis using al o2 o3 o4 m by simp
qed

text \<open>
  The selection for a known platform, in the order of the database. With no eligible row
  the allocation is \<open>None\<close> and the store is unchanged; with one, a row is selected. The
  selected row is a row of the table of that platform, logged in and not in use, and no
  eligible row stands before it in the order. An allocation that succeeds carries the
  selected row's id, and the first two entries the operation adds to the journal are the
  write of \<open>in_use = True\<close> for the selected row and then the validator call for it.
\<close>

lemma allocate_selects_in_database_order:
  assumes pc: "get_platform_code p = Some code"
  shows
    "((\<forall>a\<in>set (rows st). \<not> eligible code a) \<longrightarrow> allocate_cookie v now p u st = (None, st)) \<and>
     ((\<exists>a\<in>set (rows st). eligible code a) \<longrightarrow> select_account code st \<noteq> None) \<and>
     (\<forall>a. select_account code st = Some a \<longrightarrow>
        a \<in> set (rows st) \<and> platform a = code \<and> logged_in a \<and> \<not> in_use a \<and>
        (\<forall>b\<in>set (rows st). eligible code b \<longrightarrow>
           before_or_equal (nulls_first st) (last_used_at a) (last_used_at b)) \<and>
        (\<forall>r. fst (allocate_cookie v now p u st) = Some r \<longrightarrow> a_cookie_id r = acc_id a) \<and>
        (\<exists>rest. journal (snd (allocate_cookie v now p u st)) =
           journal st @
             Saved [F_in_use] (a\<lparr>in_use := True\<rparr>) #
             Validated (fst (convert_cookies_to_string (cookies a)))
                       (snd (convert_cookies_to_string (cookies a))) p (acc_id a) u # rest))"
proof (intro conjI allI impI)
  assume "\<forall>a\<in>set (rows st). \<not> eligible code a"
  then have "select_account code st = None" by (simp add: select_account_None_iff)
  then show "allocate_cookie v now p u st = (None, st)" using pc by (simp add: allocate_cookie_def)
next
  assume "\<exists>a\<in>set (rows st). eligible code a"
  then show "select_account code st \<noteq> None" by (simp add: select_account_None_iff)
next
  fix a assume s: "select_account code st = Some a"
  from select_account_Some [OF s]
  show "a \<in> set (rows st)" "platform a = code" "logged_in a" "\<not> in_use a"
    by (simp_all add: eligible_def)
next
  fix a assume s: "select_account code st = Some a"
  show "\<forall>b\<in>set (rows st). eligible code b \<longrightarrow>
          before_or_equal (nulls_first st) (last_used_at a) (last_used_at b)"
    using select_account_least [OF s] by blast
next
  fix a r assume s: "select_account code st = Some a"
    and "fst (allocate_cookie v now p u st) = Some r"
  then show "a_cookie_id r = acc_id a" using pc
    by (auto simp: allocate_cookie_def Let_def split: prod.splits if_splits)
next
  fix a assume s: "select_account code st = Some a"
  show "\<exists>rest. journal (snd (allocate_cookie v now p u st)) =
           journal st @
             Saved [F_in_use] (a\<lparr>in_use := True\<rparr>) #
             Validated (fst (convert_cookies_to_string (cookies a)))
                       (snd (convert_cookies_to_string (cookies a))) p (acc_id a) u # rest"
    by (rule allocate_journal [OF pc s])
qed

text \<open>
  In a database that sorts NULL first a never-used eligible row forces a never-used
  choice; in one that sorts NULL last a used eligible row forces a used choice, and the
  never-used rows wait until every used row is taken.
\<close>

lemma select_account_nulls_first:
  assumes "nulls_first st" and s: "select_account code st = Some a"
    and b: "b \<in> set (rows st)" "eligible code b" "last_used_at b = None"
  shows "last_used_at a = None"
  using select_account_least [OF s b(1,2)] assms(1) b(3)
  by (simp add: before_or_equal_def split: option.splits)

lemma select_account_nulls_last:
  assumes "\<not> nulls_first st" and s: "select_account code st = Some a"
    and b: "b \<in> set (rows st)" "eligible code b" "last_used_at b \<noteq> None"
  shows "last_used_at a \<noteq> None"
  using select_account_least [OF s b(1,2)] assms(1) b(3)
  by (auto simp: before_or_equal_def split: option.splits)

lemma allocate_nulls_first_example:
  "select_account ''IG'' pool_example = Some (mk_account 2 ''IG'' True False None 0 None) \<and>
   allocate_cookie always_valid 100 ''instagram'' None pool_example =
     (Some \<lparr>a_cookie_id = 2, a_username = ''user'', a_platform = ''instagram'',
            a_cookies = ''csrftoken=tok; sessionid=abc'', a_csrf_token = ''tok'',
            a_comment_count = 12\<rparr>,
      \<lparr>rows = [mk_account 1 ''IG'' True False (Some 50) 0 None,
               (mk_account 2 ''IG'' True True None 0 None)\<lparr>last_validated_at := Some 100\<rparr>,
               mk_account 3 ''IG'' True True None 0 None,
               mk_account 4 ''LI'' True False None 0 None,
               mk_account 5 ''IG'' False False None 3 (Some ''Banned after 3 failures: blocked'')],
       journal = [Saved [F_in_use] (mk_account 2 ''IG'' True True None 0 None),
                  Validated ''csrftoken=tok; sessionid=abc'' ''tok'' ''instagram'' 2 None,
                  Saved [F_last_validated_at]
                    ((mk_account 2 ''IG'' True True None 0 None)\<lparr>last_validated_at := Some 100\<rparr>)],
       nulls_first = True\<rparr>)"
  by code_simp

text \<open>
  Claim C3. The query asks for no NULL placement, so the never-used rows come first only
  where the database sorts NULL first. In a database that sorts NULL last, with account 1
  last used at time 50 and account 2 never used, both eligible, the query selects account
  1 and the allocation hands out cookie 1.
\<close>

theorem allocate_passes_over_never_used:
  "\<not> nulls_first pool_nulls_last \<and>
   mk_account 2 ''IG'' True False None 0 None \<in> set (rows pool_nulls_last) \<and>
   eligible ''IG'' (mk_account 2 ''IG'' True False None 0 None) \<and>
   select_account ''IG'' pool_nulls_last = Some (mk_account 1 ''IG'' True False (Some 50) 0 None) \<and>
   map_option a_cookie_id (fst (allocate_cookie always_valid 100 ''instagram'' None pool_nulls_last))
     = Some 1"
  by code_simp


section \<open>Properties of the session validator\<close>

lemma search_reel_url: "search_shortcode reel_url = Some ''ABC123''"
  by code_simp

lemma attempts_list: "attempts = [0, 1, 2, 3]"
  by code_simp

lemma classify_http_auth:
  "classify_http 401 = (False, ''session_expired'', 0)"
  "classify_http 403 = (False, ''session_expired'', 0)"
  "classify_http 429 = (False, ''rate_limited'', 0)"
  "500 \<le> status_code \<Longrightarrow> classify_http status_code = (False, ''api_error'', 0)"
  by (simp_all add: classify_http_def)

text \<open>An HTTP error status ends the validation at the attempt that received it.\<close>

lemma validate_instagram_http_error:
  assumes "search_shortcode url = Some shortcode" and "upstream 0 = Raises (HTTPError status_code)"
  shows "validate_instagram upstream cookies_string csrf_token cid (Some url) =
           (classify_http status_code, [Request 0])"
  using assms
  by (simp add: validate_instagram_def validate_with_post_graphql_def attempts_list)

text \<open>
  When every attempt fails with the same retried exception, the three delays are slept
  through, four requests are made, and the exception of the last attempt is classified.
\<close>

lemma validate_attempts_all_fail:
  assumes "e = Timeout \<or> e = RequestException" and "\<forall>k\<le>3. upstream k = Raises e"
  shows "validate_attempts upstream [0, 1, 2, 3] =
           (Inl e, [Request 0, Sleep 2, Request 1, Sleep 4, Request 2, Sleep 8, Request 3])"
proof -
  have u: "upstream 0 = Raises e" "upstream (Suc 0) = Raises e" "upstream 2 = Raises e"
    "upstream 3 = Raises e"
    using assms(2) by simp_all
  from assms(1) show ?thesis
  proof
    assume "e = Timeout"
    then show ?thesis using u by (simp add: retry_delays_def)
  next
    assume "e = RequestException"
    then show ?thesis using u by (simp add: retry_delays_def)
  qed
qed

lemma validate_instagram_connection_failure:
  assumes "search_shortcode url = Some shortcode" and "\<forall>k\<le>3. upstream k = Raises RequestException"
  shows "validate_instagram upstream cookies_string csrf_token cid (Some url) =
           ((False, ''network_error'', 0),
            [Request 0, Sleep 2, Request 1, Sleep 4, Request 2, Sleep 8, Request 3])"
proof -
  have "validate_attempts upstream attempts =
          (Inl RequestException,
           [Request 0, Sleep 2, Request 1, Sleep 4, Request 2, Sleep 8, Request 3])"
    unfolding attempts_list by (rule validate_attempts_all_fail [OF _ assms(2)]) simp
  then show ?thesis using assms(1)
    by (simp add: validate_instagram_def validate_with_post_graphql_def)
qed

text \<open>
  Claim C5 at the input where the code departs from it: every attempt times out. The three
  delays are exhausted as the claim says, but the handler for \<open>Timeout\<close> stands before
  the handler for \<open>RequestException\<close>, and the reason returned is \<open>timeout\<close>, not
  \<open>network_error\<close>.
\<close>

theorem validate_instagram_timeout:
  "validate_instagram (\<lambda>attempt. Raises Timeout) cookies_string csrf_token cid (Some reel_url) =
     ((False, ''timeout'', 0),
      [Request 0, Sleep 2, Request 1, Sleep 4, Request 2, Sleep 8, Request 3])"
proof -
  have "validate_attempts (\<lambda>attempt. Raises Timeout) attempts =
          (Inl Timeout, [Request 0, Sleep 2, Request 1, Sleep 4, Request 2, Sleep 8, Request 3])"
    unfolding attempts_list by (rule validate_attempts_all_fail) simp_all
  then show ?thesis
    by (simp add: validate_instagram_def validate_with_post_graphql_def search_reel_url)
qed


section \<open>Properties of the rounding to double precision\<close>

lemma pow2_pos [simp]: "0 < pow2 e"
  by (simp add: pow2_def)

lemma pow2_nonzero [simp]: "pow2 e \<noteq> 0"
  by (simp add: pow2_def)

lemma pow2_add: "pow2 (a + b) = pow2 a * pow2 b"
  by (simp add: pow2_def power_int_add)

lemma pow2_mono: "a \<le> b \<Longrightarrow> pow2 a \<le> pow2 b"
  by (simp add: pow2_def power_int_increasing)

lemma pow2_strict_mono: "a < b \<Longrightarrow> pow2 a < pow2 b"
  by (simp add: pow2_def power_int_strict_increasing)

lemma pow2_less_iff: "pow2 a < pow2 b \<longleftrightarrow> a < b"
  using pow2_strict_mono [of a b] pow2_mono [of b a] by (auto simp: not_less [symmetric])

lemma pow2_nat: "0 \<le> e \<Longrightarrow> pow2 e = 2 ^ nat e"
  by (simp add: pow2_def power_int_nonneg_exp)

lemma bitlen_pow2_bounds:
  assumes "0 < p"
  shows "pow2 (bitlen p - 1) \<le> of_int p" and "of_int p < pow2 (bitlen p)"
proof -
  from bitlen_bounds [OF assms] have a: "2 ^ nat (bitlen p - 1) \<le> p" and b: "p < 2 ^ nat (bitlen p)"
    by simp_all
  have ge1: "1 \<le> bitlen p" using assms bitlen_eq_zero_iff [of p] bitlen_nonneg [of p] by linarith
  have "(of_int (2 ^ nat (bitlen p - 1)) :: rat) \<le> of_int p" using a by (simp only: of_int_le_iff)
  then show "pow2 (bitlen p - 1) \<le> of_int p" using ge1 by (simp add: pow2_nat)
  have "(of_int p :: rat) < of_int (2 ^ nat (bitlen p))" using b by (simp only: of_int_less_iff)
  then show "of_int p < pow2 (bitlen p)" using ge1 by (simp add: pow2_nat)
qed

lemma binade_bounds:
  assumes "0 < x"
  shows "pow2 (binade x) \<le> x" and "x < pow2 (binade x + 1)"
proof -
  obtain p q where pq: "quotient_of x = (p, q)" by (cases "quotient_of x")
  then have q: "0 < q" by (rule quotient_of_denom_pos)
  have x: "x = of_int p / of_int q" using pq by (rule quotient_of_div)
  have p: "0 < p" using assms q x by (simp add: zero_less_divide_iff)
  define d where "d = bitlen p - bitlen q"
  note bp = bitlen_pow2_bounds [OF p] and bq = bitlen_pow2_bounds [OF q]
  have qpos: "(0::rat) < of_int q" using q by simp
  have "x < pow2 (bitlen p) / pow2 (bitlen q - 1)"
    unfolding x using bp(2) bq(1) p
    by (intro frac_less) simp_all
  also have "\<dots> = pow2 (d + 1)"
    using pow2_add [of "d + 1" "bitlen q - 1"] by (simp add: d_def field_simps)
  finally have up: "x < pow2 (d + 1)" .
  have "pow2 (d - 1) = pow2 (bitlen p - 1) / pow2 (bitlen q)"
    using pow2_add [of "d - 1" "bitlen q"] by (simp add: d_def field_simps)
  also have "\<dots> < x"
    unfolding x using bp(1) bq(2) qpos
    by (intro frac_less2) simp_all
  finally have lo: "pow2 (d - 1) < x" .
  have b: "binade x = (if pow2 d \<le> x then d else d - 1)"
    by (simp add: binade_def pq d_def Let_def)
  show "pow2 (binade x) \<le> x" using lo by (simp add: b less_imp_le)
  show "x < pow2 (binade x + 1)" using up by (simp add: b not_le)
qed

lemma round_half_even_error: "\<bar>of_int (round_half_even q) - q\<bar> \<le> 1 / 2"
proof -
  have "of_int \<lfloor>q\<rfloor> \<le> q" "q < of_int \<lfloor>q\<rfloor> + 1" by linarith+
  then show ?thesis by (auto simp: round_half_even_def Let_def)
qed

lemma round_half_even_le: "q \<le> of_int m \<Longrightarrow> round_half_even q \<le> m"
proof -
  assume a: "q \<le> of_int m"
  have f: "\<lfloor>q\<rfloor> \<le> m" using a by (simp add: floor_le_iff)
  show ?thesis
  proof (cases "\<lfloor>q\<rfloor> = m")
    case True
    then have "q = of_int m" using a by (metis of_int_floor_le order_antisym)
    then show ?thesis by (simp add: round_half_even_def)
  next
    case False
    then have "\<lfloor>q\<rfloor> + 1 \<le> m" using f by simp
    then show ?thesis by (auto simp: round_half_even_def Let_def)
  qed
qed

lemma round_half_even_ge: "of_int m \<le> q \<Longrightarrow> m \<le> round_half_even q"
proof -
  assume "of_int m \<le> q"
  then have "m \<le> \<lfloor>q\<rfloor>" by (simp add: le_floor_iff)
  then show ?thesis by (auto simp: round_half_even_def Let_def)
qed

lemma round_half_even_exact:
  assumes "of_int m \<le> q" and "q < of_int m + 1 / 2"
  shows "round_half_even q = m"
proof -
  have "\<lfloor>q\<rfloor> = m" using assms by (simp add: floor_unique)
  then show ?thesis using assms by (simp add: round_half_even_def Let_def)
qed

lemma round_double_ulp: "round_double x = of_int (round_half_even (x / ulp x)) * ulp x"
  by (simp add: round_double_def ulp_def Let_def)

lemma ulp_pos [simp]: "0 < ulp x"
  by (simp add: ulp_def)

lemma ulp_nonzero [simp]: "ulp x \<noteq> 0"
  by (simp add: ulp_def)

lemma ulp_nonneg [simp]: "0 \<le> ulp x"
  by (simp add: ulp_def less_imp_le)

lemma abs_ulp [simp]: "\<bar>ulp x\<bar> = ulp x"
  by (simp add: abs_of_nonneg)

lemma round_double_error: "\<bar>round_double x - x\<bar> \<le> ulp x / 2"
proof -
  have "round_double x - x = (of_int (round_half_even (x / ulp x)) - x / ulp x) * ulp x"
    by (simp add: round_double_ulp left_diff_distrib)
  then have "\<bar>round_double x - x\<bar> = \<bar>of_int (round_half_even (x / ulp x)) - x / ulp x\<bar> * ulp x"
    by (simp add: abs_mult)
  also have "\<dots> \<le> (1 / 2) * ulp x"
    by (rule mult_right_mono [OF round_half_even_error]) simp
  finally show ?thesis by simp
qed

lemma int_on_grid:
  assumes "binade x \<le> 52"
  shows "of_int n / ulp x = of_int (n * 2 ^ nat (52 - binade x))"
proof -
  have "pow2 (binade x - 52) * pow2 (52 - binade x) = 1"
    using pow2_add [of "binade x - 52" "52 - binade x"] by (simp add: pow2_def)
  moreover have "pow2 (52 - binade x) = 2 ^ nat (52 - binade x)"
    using assms by (simp add: pow2_nat)
  ultimately show ?thesis by (simp add: ulp_def field_simps)
qed

lemma round_double_le_int:
  assumes "binade x \<le> 52" and "x \<le> of_int n"
  shows "round_double x \<le> of_int n"
proof -
  have "x / ulp x \<le> of_int n / ulp x" using assms(2) by (rule divide_right_mono) simp
  then have "x / ulp x \<le> of_int (n * 2 ^ nat (52 - binade x))"
    by (simp only: int_on_grid [OF assms(1)])
  then have "round_half_even (x / ulp x) \<le> n * 2 ^ nat (52 - binade x)"
    by (rule round_half_even_le)
  then have "(of_int (round_half_even (x / ulp x)) :: rat) \<le> of_int (n * 2 ^ nat (52 - binade x))"
    by (simp only: of_int_le_iff)
  then have "of_int (round_half_even (x / ulp x)) \<le> of_int n / ulp x"
    by (simp only: int_on_grid [OF assms(1)])
  then show ?thesis by (simp add: round_double_ulp pos_le_divide_eq)
qed

lemma round_double_ge_int:
  assumes "binade x \<le> 52" and "of_int n \<le> x"
  shows "of_int n \<le> round_double x"
proof -
  have "of_int n / ulp x \<le> x / ulp x" using assms(2) by (rule divide_right_mono) simp
  then have "of_int (n * 2 ^ nat (52 - binade x)) \<le> x / ulp x"
    by (simp only: int_on_grid [OF assms(1)])
  then have "n * 2 ^ nat (52 - binade x) \<le> round_half_even (x / ulp x)"
    by (rule round_half_even_ge)
  then have "(of_int (n * 2 ^ nat (52 - binade x)) :: rat) \<le> of_int (round_half_even (x / ulp x))"
    by (simp only: of_int_le_iff)
  then have "of_int n / ulp x \<le> of_int (round_half_even (x / ulp x))"
    by (simp only: int_on_grid [OF assms(1)])
  then show ?thesis by (simp add: round_double_ulp pos_divide_le_eq)
qed

lemma round_double_near_int:
  assumes "binade x \<le> 52" and "of_int n \<le> x" and "x < of_int n + ulp x / 2"
  shows "round_double x = of_int n"
proof -
  let ?m = "n * 2 ^ nat (52 - binade x)"
  have g: "of_int n / ulp x = of_int ?m" by (rule int_on_grid [OF assms(1)])
  have "of_int n / ulp x \<le> x / ulp x" using assms(2) by (rule divide_right_mono) simp
  then have lo: "of_int ?m \<le> x / ulp x" by (simp only: g)
  have "x / ulp x < (of_int n + ulp x / 2) / ulp x"
    using assms(3) by (rule divide_strict_right_mono) simp
  also have "\<dots> = of_int n / ulp x + 1 / 2" by (simp add: add_divide_distrib)
  finally have hi: "x / ulp x < of_int ?m + 1 / 2" by (simp only: g)
  have "round_half_even (x / ulp x) = ?m" by (rule round_half_even_exact [OF lo hi])
  then have "round_double x = of_int ?m * ulp x" by (simp only: round_double_ulp)
  also have "\<dots> = of_int n" by (simp only: g [symmetric]) simp
  finally show ?thesis .
qed

lemma binade_less:
  assumes "0 < x" and "x < pow2 k"
  shows "binade x < k"
  using binade_bounds(1) [OF assms(1)] assms(2) pow2_less_iff [of "binade x" k] by simp

lemma round_double_int:
  assumes "0 < n" and "n < 2 ^ 53"
  shows "round_double (of_int n) = of_int n"
proof -
  have "(of_int n :: rat) < of_int (2 ^ 53)" using assms(2) by (simp only: of_int_less_iff)
  then have "(of_int n :: rat) < pow2 53" by (simp add: pow2_def)
  then have "binade (of_int n) < 53" using assms(1) by (intro binade_less) simp_all
  then have b: "binade (of_int n) \<le> 52" by simp
  show ?thesis
    using round_double_le_int [OF b, of n] round_double_ge_int [OF b, of n] by simp
qed

lemma threshold_percent_value:
  "COMMENT_THRESHOLD_PERCENT = 3602879701896397 / 4503599627370496"
  by code_simp

lemma threshold_percent_split: "COMMENT_THRESHOLD_PERCENT = 4 / 5 + 1 / (5 * 2 ^ 52)"
  by (simp add: threshold_percent_value)

lemma pow2_numeral_51: "pow2 51 = 2 ^ 51" and pow2_numeral_m2: "pow2 (- 2) = 1 / 4"
  by (simp_all add: pow2_def power_int_minus_divide)

lemma threshold_decides:
  assumes e: "0 < e" "e < 2 ^ 51"
  shows "round_double (of_int e * COMMENT_THRESHOLD_PERCENT) \<le> of_int f \<longleftrightarrow> 4 * e \<le> 5 * f"
proof -
  define x :: rat where "x = of_int e * COMMENT_THRESHOLD_PERCENT"
  define j where "j = (4 * e) div 5"
  define s where "s = (4 * e) mod 5"
  define d :: rat where "d = of_int e / (5 * 2 ^ 52)"
  have js: "4 * e = 5 * j + s" and s: "0 \<le> s" "s < 5" by (simp_all add: j_def s_def)
  have er: "(0::rat) < of_int e" "(of_int e :: rat) < 2 ^ 51"
    using e by simp_all
  have "(of_int (4 * e) :: rat) = of_int (5 * j + s)" by (simp only: js)
  then have jsr: "4 * (of_int e :: rat) = 5 * of_int j + of_int s" by simp
  have xd: "x = of_int j + of_int s / 5 + d"
    using jsr by (simp add: x_def d_def threshold_percent_split field_simps)
  have d: "0 < d" "d < 1 / 10" using er by (simp_all add: d_def field_simps)
  have sr: "(0::rat) \<le> of_int s" "(of_int s :: rat) < 5" using s by simp_all
  have jn: "0 \<le> j" using e by (simp add: j_def)
  have xpos: "0 < x" using er by (simp add: x_def threshold_percent_value)
  have "x = of_int e * (4 / 5) + d" by (simp add: x_def d_def threshold_percent_split field_simps)
  also have "\<dots> < of_int e" using d er e
  proof -
    have "(1::rat) \<le> of_int e" using e by simp
    then show "of_int e * (4 / 5) + d < (of_int e :: rat)" using d by simp
  qed
  finally have xe: "x < of_int e" .
  then have "x < pow2 51" using er by (simp add: pow2_numeral_51)
  then have b51: "binade x < 51" using xpos by (intro binade_less)
  then have b: "binade x \<le> 52" by simp
  have "ulp x \<le> pow2 (- 2)" unfolding ulp_def using b51 by (intro pow2_mono) simp
  then have u: "ulp x \<le> 1 / 4" by (simp add: pow2_numeral_m2)
  show ?thesis
  proof (cases "s = 0")
    case True
    then have fe: "4 * e = 5 * j" using js by simp
    then have "4 * (of_int e :: rat) = 5 * of_int j" using jsr True by simp
    then have dj: "d = of_int j / 2 ^ 54" by (simp add: d_def field_simps)
    have xj: "x = of_int j + d" using xd True by simp
    have "of_int j \<le> x" using xj d by simp
    moreover have "x < of_int j + ulp x / 2"
    proof -
      have "of_int j < pow2 (binade x + 1)"
        using binade_bounds(2) [OF xpos] xj d by simp
      then have "of_int j / 2 ^ 54 < pow2 (binade x + 1) / 2 ^ 54"
        by (rule divide_strict_right_mono) simp
      also have "\<dots> = pow2 (binade x + 1) * pow2 (- 54)"
        by (simp add: pow2_def power_int_minus_divide)
      also have "\<dots> = pow2 (binade x - 53)"
        using pow2_add [of "binade x + 1" "- 54"] by simp
      also have "\<dots> = ulp x / 2"
        using pow2_add [of "binade x - 53" 1] by (simp add: ulp_def pow2_def)
      finally have "d < ulp x / 2" by (simp only: dj)
      with xj show ?thesis by linarith
    qed
    ultimately have "round_double x = of_int j" by (rule round_double_near_int [OF b])
    then have "round_double x \<le> of_int f \<longleftrightarrow> j \<le> f" by simp
    then show ?thesis using fe by (simp add: x_def)
  next
    case False
    then have s1: "1 \<le> s" "s \<le> 4" using s by simp_all
    then have s1r: "(1::rat) \<le> of_int s" "(of_int s :: rat) \<le> 4" by simp_all
    have "x \<le> of_int (j + 1)" using xd d s1r by simp
    then have up: "round_double x \<le> of_int (j + 1)" by (rule round_double_le_int [OF b])
    have "x - round_double x \<le> ulp x / 2" using round_double_error [of x] by linarith
    then have lo: "of_int j < round_double x" using xd d s1r u by simp
    have "round_double x \<le> of_int f \<longleftrightarrow> j + 1 \<le> f"
    proof
      assume "round_double x \<le> of_int f"
      then have "(of_int j :: rat) < of_int f" using lo by simp
      then show "j + 1 \<le> f" by simp
    next
      assume "j + 1 \<le> f"
      then have "(of_int (j + 1) :: rat) \<le> of_int f" by (simp only: of_int_le_iff)
      then show "round_double x \<le> of_int f" using up by simp
    qed
    moreover have "j + 1 \<le> f \<longleftrightarrow> 4 * e \<le> 5 * f" using js s1 by presburger
    ultimately show ?thesis by (simp add: x_def)
  qed
qed

lemma round_double_less_twice:
  assumes "0 < y"
  shows "round_double y < 2 * y"
proof -
  have "ulp y \<le> pow2 (binade y)" unfolding ulp_def by (intro pow2_mono) simp
  also have "\<dots> \<le> y" by (rule binade_bounds(1) [OF assms])
  finally have "ulp y / 2 < y" using assms by simp
  then show ?thesis using round_double_error [of y] by linarith
qed

lemma fits_double_small:
  assumes "0 < y" and "y < pow2 1000"
  shows "fits_double y"
proof -
  have "round_double y < 2 * y" by (rule round_double_less_twice [OF assms(1)])
  also have "\<dots> < pow2 1 * pow2 1000" using assms(2) by (simp add: pow2_def)
  also have "\<dots> = pow2 1001" using pow2_add [of 1 1000] by simp
  also have "\<dots> < pow2 1024" by (rule pow2_strict_mono) simp
  finally show ?thesis by (simp add: fits_double_def)
qed

lemma float_of_int_exact:
  assumes "0 < e" and "e < 2 ^ 51"
  shows "float_of_int e = Inr (of_int e)"
proof -
  have "e < 2 ^ 53" using assms(2) by simp
  then have r: "round_double (of_int e) = of_int e" by (rule round_double_int [OF assms(1)])
  have "(of_int e :: rat) < 2 ^ 51" using assms(2) by simp
  also have "\<dots> = pow2 51" by (simp add: pow2_def)
  also have "\<dots> < pow2 1024" by (rule pow2_strict_mono) simp
  finally show ?thesis by (simp add: float_of_int_def fits_double_def r)
qed

lemma true_div_fits:
  assumes "0 < e" and "\<bar>f\<bar> < 2 ^ 1000"
  shows "\<not> true_div_overflows f e"
proof (cases "f = 0")
  case True
  then show ?thesis by (simp add: true_div_overflows_def)
next
  case False
  let ?y = "\<bar>of_int f / of_int e :: rat\<bar>"
  have e1: "(1::rat) \<le> of_int e" using assms(1) by simp
  have pos: "0 < ?y" using False assms(1) by simp
  have "?y = \<bar>of_int f\<bar> / of_int e" using assms(1) by (simp add: abs_divide)
  also have "\<dots> \<le> \<bar>of_int f\<bar> / 1" using e1 by (intro divide_left_mono) simp_all
  also have "\<dots> = of_int \<bar>f\<bar>" by simp
  also have "\<dots> < 2 ^ 1000" using assms(2) by (simp only: of_int_less_numeral_power_cancel_iff)
  also have "\<dots> = pow2 1000" by (simp add: pow2_def)
  finally have "?y < pow2 1000" .
  then have "fits_double ?y" by (rule fits_double_small [OF pos])
  then show ?thesis by (simp add: true_div_overflows_def)
qed

lemma should_retry_decides:
  assumes "expected_count < 2 ^ 51" and "\<bar>fetched_count\<bar> < 2 ^ 1000"
  shows "should_retry fetched_count expected_count n =
           Inr (n < 5 \<and> 0 < expected_count \<and> 5 * fetched_count < 4 * expected_count)"
proof (cases "n \<ge> 5 \<or> expected_count \<le> 0")
  case True
  then show ?thesis by (auto simp: should_retry_def MAX_RETRY_COUNT_def)
next
  case False
  then have n: "n < 5" and e: "0 < expected_count" by simp_all
  note f = float_of_int_exact [OF e assms(1)]
  note t = threshold_decides [OF e assms(1), of fetched_count]
  note o = true_div_fits [OF e assms(2)]
  show ?thesis using n e t o
    by (auto simp: should_retry_def MAX_RETRY_COUNT_def f Let_def)
qed

lemma should_retry_scenario: "should_retry 70 100 1 = Inr True"
  using should_retry_decides [of 100 70 1] by simp


section \<open>Properties of the scrape worker entry point\<close>

lemma truthy_int_None [simp]: "\<not> truthy_int None"
  by (simp add: truthy_int_def)

lemma callbacks_posted_simps [simp]:
  "callbacks_posted [] = []"
  "callbacks_posted (xs @ ys) = callbacks_posted xs @ callbacks_posted ys"
  "callbacks_posted (Post u (Callback j ok loop err cs) # xs) =
     Post u (Callback j ok loop err cs) # callbacks_posted xs"
  "callbacks_posted (Post u (ReleaseCookie c ok reason) # xs) = callbacks_posted xs"
  "callbacks_posted (InvokeRetry b # xs) = callbacks_posted xs"
  "callbacks_posted (CallScraper k # xs) = callbacks_posted xs"
  "callbacks_posted (FetchExpected # xs) = callbacks_posted xs"
  by (simp_all add: callbacks_posted_def)

lemma releases_posted_simps [simp]:
  "releases_posted [] = []"
  "releases_posted (xs @ ys) = releases_posted xs @ releases_posted ys"
  "releases_posted (Post u (Callback j ok loop err cs) # xs) = releases_posted xs"
  "releases_posted (Post u (ReleaseCookie c ok reason) # xs) =
     Post u (ReleaseCookie c ok reason) # releases_posted xs"
  "releases_posted (InvokeRetry b # xs) = releases_posted xs"
  "releases_posted (CallScraper k # xs) = releases_posted xs"
  "releases_posted (FetchExpected # xs) = releases_posted xs"
  by (simp_all add: releases_posted_def)

lemma callbacks_cleanup:
  "callbacks_posted (ensure_cleanup j cb rel cid res err ok reason) =
     (if truthy_str cb
      then [Post (the cb)
              (case res of
                 Some result \<Rightarrow> Callback j True (Some False) None (comments result)
               | None \<Rightarrow> Callback j False None
                   (Some (if truthy_str err then the err else ''Unknown error'')) [])]
      else [])"
  by (simp add: ensure_cleanup_def split: option.splits)

lemma releases_cleanup:
  "releases_posted (ensure_cleanup j cb rel cid res err ok reason) =
     (if truthy_str rel \<and> truthy_int cid then [Post (the rel) (ReleaseCookie (the cid) ok reason)]
      else [])"
  by (simp add: ensure_cleanup_def split: option.splits)

lemma callbacks_blocked:
  "callbacks_posted (snd (blocked_branch w body cid)) =
     (if truthy_str (callback_url body)
      then [Post (the (callback_url body)) (Callback (job_id body) True (Some True) None [])]
      else [])"
  by (simp add: blocked_branch_def invoke_lambda_retry_def Let_def)

lemma releases_blocked:
  "releases_posted (snd (blocked_branch w body cid)) =
     (if truthy_str (cookies_release_url body) \<and> truthy_int cid
      then [Post (the (cookies_release_url body))
              (ReleaseCookie (the cid) False
                 (Some ''Instagram API blocked - possible bad cookie or rate limit''))]
      else [])"
  by (simp add: blocked_branch_def invoke_lambda_retry_def Let_def)

lemma completeness_check_cases:
  "(\<exists>err. completeness_check w body cid h result =
       (ServerError (py_error_text err),
        FetchExpected # ensure_cleanup (job_id body) (callback_url body) (cookies_release_url body)
           cid None (Some (py_error_text err)) False
           (Some (''Lambda error: '' @ take 200 (py_error_text err)))) \<and>
       \<not> retry_started w body h result) \<or>
   (completeness_check w body cid h result =
       (Completed True False, [FetchExpected, InvokeRetry (body\<lparr>retry_count := retry_count body + 1\<rparr>)]) \<and>
       retry_started w body h result) \<or>
   (\<exists>eff. completeness_check w body cid h result =
       (Completed False True,
        FetchExpected # eff @ ensure_cleanup (job_id body) (callback_url body)
           (cookies_release_url body) cid (Some result) None True None) \<and>
       callbacks_posted eff = [] \<and> releases_posted eff = [] \<and>
       \<not> retry_started w body h result)"
proof -
  define d where "d = (if \<not> h \<and> expected_comment_count w \<noteq> None
             then should_retry (total_comments result) (the (expected_comment_count w)) (retry_count body)
             else Inr False)"
  show ?thesis
  proof (cases d)
    case (Inl err)
    then have "\<not> retry_started w body h result"
      by (auto simp: d_def retry_started_def split: if_splits option.splits)
    moreover have "completeness_check w body cid h result =
       (ServerError (py_error_text err),
        FetchExpected # ensure_cleanup (job_id body) (callback_url body) (cookies_release_url body)
           cid None (Some (py_error_text err)) False
           (Some (''Lambda error: '' @ take 200 (py_error_text err))))"
      using Inl unfolding d_def completeness_check_def on_exception_def by (simp add: Let_def)
    ultimately show ?thesis by blast
  next
    case (Inr needed)
    show ?thesis
    proof (cases "needed \<and> retry_request_ok w (body\<lparr>retry_count := retry_count body + 1\<rparr>)")
      case True
      then have "retry_started w body h result" using Inr
        by (auto simp: d_def retry_started_def split: if_splits option.splits)
      moreover have "completeness_check w body cid h result =
        (Completed True False, [FetchExpected, InvokeRetry (body\<lparr>retry_count := retry_count body + 1\<rparr>)])"
        using Inr True unfolding d_def completeness_check_def invoke_lambda_retry_def
        by (simp add: Let_def)
      ultimately show ?thesis by blast
    next
      case False
      then have n: "\<not> retry_started w body h result" using Inr
        by (auto simp: d_def retry_started_def split: if_splits option.splits)
      let ?eff = "if needed then [InvokeRetry (body\<lparr>retry_count := retry_count body + 1\<rparr>)] else []"
      have "completeness_check w body cid h result =
       (Completed False True,
        FetchExpected # ?eff @ ensure_cleanup (job_id body) (callback_url body)
           (cookies_release_url body) cid (Some result) None True None)"
        using Inr False unfolding d_def completeness_check_def invoke_lambda_retry_def
        by (simp add: Let_def)
      moreover have "callbacks_posted ?eff = []" "releases_posted ?eff = []" by simp_all
      ultimately show ?thesis using n by blast
    qed
  qed
qed

lemma callbacks_on_exception:
  "callbacks_posted (snd (on_exception j cb rel cid msg)) =
     (if truthy_str cb
      then [Post (the cb) (Callback j False None (Some (if msg \<noteq> [] then msg else ''Unknown error'')) [])]
      else [])"
  by (simp add: on_exception_def callbacks_cleanup truthy_str_def)

lemma releases_on_exception:
  "releases_posted (snd (on_exception j cb rel cid msg)) =
     (if truthy_str rel \<and> truthy_int cid
      then [Post (the rel) (ReleaseCookie (the cid) False (Some (''Lambda error: '' @ take 200 msg)))]
      else [])"
  by (simp add: on_exception_def releases_cleanup)

lemma fst_on_exception [simp]: "fst (on_exception j cb rel cid msg) = ServerError msg"
  by (simp add: on_exception_def)

lemma fst_blocked_branch:
  "fst (blocked_branch w body cid) =
     BlockedFallback (retry_request_ok w (body\<lparr>retry_count := MAX_RETRY_COUNT\<rparr>))"
  by (simp add: blocked_branch_def invoke_lambda_retry_def Let_def MAX_RETRY_COUNT_def)

lemma lambda_handler_primary:
  assumes "truthy_str (post_url body)" and "retry_count body < MAX_RETRY_COUNT"
  shows "lambda_handler w (Body body) =
           (fst (scrape_and_finish w body (cookie_id body) False),
            CallScraper GraphQL # snd (scrape_and_finish w body (cookie_id body) False))"
  using assms by (simp add: lambda_handler_def Let_def split: prod.splits)

lemma lambda_handler_fallback:
  assumes "truthy_str (post_url body)" and "retry_count body \<ge> MAX_RETRY_COUNT"
  shows "lambda_handler w (Body body) =
           (fst (scrape_and_finish w body (snd (release_before_hiker body)) True),
            fst (release_before_hiker body) @ CallScraper Hiker #
              snd (scrape_and_finish w body (snd (release_before_hiker body)) True))"
  using assms by (simp add: lambda_handler_def Let_def split: prod.splits)

lemma completeness_callbacks:
  "callbacks_posted (snd (completeness_check w body cid h result)) =
     (if truthy_str (callback_url body) \<and> \<not> retry_started w body h result
      then [Post (the (callback_url body))
              (case fst (completeness_check w body cid h result) of
                 ServerError msg \<Rightarrow>
                   Callback (job_id body) False None
                     (Some (if msg \<noteq> [] then msg else ''Unknown error'')) []
               | _ \<Rightarrow> Callback (job_id body) True (Some False) None (comments result))]
      else [])"
  using completeness_check_cases [of w body cid h result]
  by (auto simp: callbacks_cleanup truthy_str_def)

lemma completeness_releases:
  "releases_posted (snd (completeness_check w body cid h result)) =
     (if truthy_str (cookies_release_url body) \<and> truthy_int cid \<and> \<not> retry_started w body h result
      then [Post (the (cookies_release_url body))
              (case fst (completeness_check w body cid h result) of
                 ServerError msg \<Rightarrow>
                   ReleaseCookie (the cid) False (Some (''Lambda error: '' @ take 200 msg))
               | _ \<Rightarrow> ReleaseCookie (the cid) True None)]
      else [])"
  using completeness_check_cases [of w body cid h result]
  by (auto simp: releases_cleanup)

lemma completeness_response:
  "(\<exists>msg. fst (completeness_check w body cid h result) = ServerError msg) \<or>
   (\<exists>rt cl. fst (completeness_check w body cid h result) = Completed rt cl)"
  using completeness_check_cases [of w body cid h result] by auto

lemma retry_started_hiker [simp]: "\<not> retry_started w body True result"
  by (simp add: retry_started_def)

lemma releases_before_hiker:
  "releases_posted (fst (release_before_hiker body)) =
     (if truthy_str (cookies_release_url body) \<and> truthy_int (cookie_id body)
      then [Post (the (cookies_release_url body))
              (ReleaseCookie (the (cookie_id body)) False
                 (Some ''GraphQL retries exhausted - switching to Hiker API''))]
      else [])"
  "callbacks_posted (fst (release_before_hiker body)) = []"
  "\<not> (truthy_str (cookies_release_url body) \<and> truthy_int (snd (release_before_hiker body)))"
  by (simp_all add: release_before_hiker_def)

lemma lambda_handler_missing_post_url:
  "\<not> truthy_str (post_url body) \<Longrightarrow> lambda_handler w (Body body) = (MissingPostUrl, [])"
  by (simp add: lambda_handler_def)

lemma lambda_handler_threshold_branch:
  assumes p: "truthy_str (post_url body)" and n: "retry_count body < MAX_RETRY_COUNT"
    and s: "scrape w GraphQL = Scraped result"
    and x: "expected_comment_count w = Some expected"
    and r: "should_retry (total_comments result) expected (retry_count body) = Inr True"
  shows "lambda_handler w (Body body) =
           (if retry_request_ok w (body\<lparr>retry_count := retry_count body + 1\<rparr>)
            then (Completed True False,
                  [CallScraper GraphQL, FetchExpected,
                   InvokeRetry (body\<lparr>retry_count := retry_count body + 1\<rparr>)])
            else (Completed False True,
                  [CallScraper GraphQL, FetchExpected,
                   InvokeRetry (body\<lparr>retry_count := retry_count body + 1\<rparr>)] @
                  ensure_cleanup (job_id body) (callback_url body) (cookies_release_url body)
                    (cookie_id body) (Some result) None True None))"
  using s x r
  by (simp add: lambda_handler_primary [OF p n] scrape_and_finish_def completeness_check_def
        invoke_lambda_retry_def Let_def)

lemma scenario_job_facts:
  "truthy_str (post_url scenario_job)" "truthy_str (callback_url scenario_job)"
  "truthy_str (cookies_release_url scenario_job)" "truthy_int (cookie_id scenario_job)"
  "retry_count scenario_job = 1" "retry_count scenario_job < MAX_RETRY_COUNT"
  by (simp_all add: scenario_job_def truthy_str_def truthy_int_def MAX_RETRY_COUNT_def)

lemma scenario_world_facts:
  "scrape (scenario_world ok) GraphQL = Scraped seventy_comments"
  "expected_comment_count (scenario_world ok) = Some 100"
  "retry_request_ok (scenario_world ok) event = ok"
  "total_comments seventy_comments = 70"
  by (simp_all add: scenario_world_def seventy_comments_def)

lemma scenario_retry_triggered:
  "lambda_handler (scenario_world True) (Body scenario_job) =
     (Completed True False,
      [CallScraper GraphQL, FetchExpected, InvokeRetry (scenario_job\<lparr>retry_count := 2\<rparr>)])"
proof -
  have r: "should_retry (total_comments seventy_comments) 100 (retry_count scenario_job) = Inr True"
    by (simp add: scenario_world_facts scenario_job_facts should_retry_scenario)
  show ?thesis
    using lambda_handler_threshold_branch [OF scenario_job_facts(1) scenario_job_facts(6)
        scenario_world_facts(1) scenario_world_facts(2) r, of True]
    by (simp add: scenario_world_facts scenario_job_facts)
qed

lemma blocked_world_facts:
  "scrape blocked_world GraphQL =
     ApiBlocked ''Instagram API returned invalid JSON after 3 attempts.''"
  "scrape blocked_world Hiker = Scraped seventy_comments"
  "retry_request_ok blocked_world event = True"
  "expected_comment_count blocked_world = Some 100"
  by (simp_all add: blocked_world_def)

lemma completeness_check_response:
  assumes "scraper_used body = (if h then Hiker else GraphQL)"
  shows "fst (completeness_check w body cid h result) =
     (case completeness_error w body result of
        Some msg \<Rightarrow> ServerError msg
      | None \<Rightarrow> Completed (retry_started w body h result) (\<not> retry_started w body h result))"
proof (cases h)
  case True
  then show ?thesis using assms
    by (simp add: completeness_check_def completeness_error_def Let_def)
next
  case False
  note h = False
  show ?thesis
  proof (cases "expected_comment_count w")
    case None
    then show ?thesis using assms h
      by (simp add: completeness_check_def completeness_error_def retry_started_def Let_def)
  next
    case (Some e)
    show ?thesis
    proof (cases "should_retry (total_comments result) e (retry_count body)")
      case (Inl err)
      then show ?thesis using assms h Some
        by (simp add: completeness_check_def completeness_error_def on_exception_def Let_def)
    next
      case (Inr needed)
      then show ?thesis using assms h Some
        by (simp add: completeness_check_def completeness_error_def retry_started_def
              invoke_lambda_retry_def Let_def)
    qed
  qed
qed

text \<open>
  Claim C1, as the code has it. For an invocation whose body names a \<open>post_url\<close>: unless
  the threshold retry was started, exactly one callback is posted when a callback URL is
  given, and it is the one the outcome of the scrape calls for (failure with the error
  text when the invocation failed, interim success with \<open>retry_loop\<close> when the primary
  scraper was blocked, success with the comments otherwise); and exactly one release is
  posted when a release URL and a cookie id are given, with the success flag set only when
  the primary scraper returned and the invocation did not fail, and otherwise with the
  reason of the branch, the error text cut to 200 characters. When the threshold retry was
  started, no callback is posted and no cookie is released by this invocation.
\<close>

theorem cleanup_guarantee:
  assumes p: "truthy_str (post_url body)"
  shows
    "callbacks_posted (snd (lambda_handler w (Body body))) =
       (if truthy_str (callback_url body) \<and> \<not> threshold_retry_triggered w body
        then [Post (the (callback_url body)) (expected_callback w body)]
        else []) \<and>
     releases_posted (snd (lambda_handler w (Body body))) =
       (if truthy_str (cookies_release_url body) \<and> truthy_int (cookie_id body)
           \<and> \<not> threshold_retry_triggered w body
        then [Post (the (cookies_release_url body)) (expected_release w body)]
        else [])"
proof (cases "retry_count body \<ge> MAX_RETRY_COUNT")
  case True
  note eq = lambda_handler_fallback [OF p True, of w]
  have u: "scraper_used body = Hiker" using True by (simp add: scraper_used_def)
  have nt: "\<not> threshold_retry_triggered w body"
    using True by (simp add: threshold_retry_triggered_def split: scrape_outcome.splits)
  let ?cid = "snd (release_before_hiker body)"
  show ?thesis
  proof (cases "scrape w Hiker")
    case (Scraped result)
    have ce: "completeness_error w body result = None"
      using u by (simp add: completeness_error_def)
    have r: "fst (completeness_check w body ?cid True result) = Completed False True"
      using completeness_check_response [where h = True and body = body and w = w
          and cid = ?cid and result = result] u ce by simp
    show ?thesis
      using Scraped True nt u ce r releases_before_hiker [of body]
      by (simp add: eq scrape_and_finish_def completeness_callbacks completeness_releases
            expected_callback_def expected_release_def invocation_error_def)
  next
    case (ApiBlocked msg)
    then show ?thesis
      using True nt u releases_before_hiker [of body]
      by (simp add: eq scrape_and_finish_def callbacks_on_exception releases_on_exception
            expected_callback_def expected_release_def invocation_error_def)
  next
    case (ScrapeFailed msg)
    then show ?thesis
      using True nt u releases_before_hiker [of body]
      by (simp add: eq scrape_and_finish_def callbacks_on_exception releases_on_exception
            expected_callback_def expected_release_def invocation_error_def)
  qed
next
  case False
  then have lt: "retry_count body < MAX_RETRY_COUNT" by simp
  have u: "scraper_used body = GraphQL" using False by (simp add: scraper_used_def)
  note eq = lambda_handler_primary [OF p lt, of w]
  show ?thesis
  proof (cases "scrape w GraphQL")
    case (Scraped result)
    have t: "threshold_retry_triggered w body = retry_started w body False result"
      using Scraped False by (simp add: threshold_retry_triggered_def)
    show ?thesis
    proof (cases "completeness_error w body result")
      case None
      have r: "fst (completeness_check w body (cookie_id body) False result) =
                 Completed (retry_started w body False result)
                   (\<not> retry_started w body False result)"
        using completeness_check_response [where h = False and body = body and w = w
            and cid = "cookie_id body" and result = result] u None by simp
      show ?thesis
        using Scraped False u None r
        by (simp add: eq t scrape_and_finish_def completeness_callbacks completeness_releases
              expected_callback_def expected_release_def invocation_error_def)
    next
      case (Some msg)
      have r: "fst (completeness_check w body (cookie_id body) False result) = ServerError msg"
        using completeness_check_response [where h = False and body = body and w = w
            and cid = "cookie_id body" and result = result] u Some by simp
      have n: "\<not> retry_started w body False result"
        using Some
        by (auto simp: completeness_error_def retry_started_def
              split: if_splits option.splits sum.splits)
      show ?thesis
        using Scraped False u Some r n
        by (simp add: eq t scrape_and_finish_def completeness_callbacks completeness_releases
              expected_callback_def expected_release_def invocation_error_def)
    qed
  next
    case (ApiBlocked msg)
    then have nt: "\<not> threshold_retry_triggered w body"
      by (simp add: threshold_retry_triggered_def)
    show ?thesis
      using ApiBlocked False nt u
      by (simp add: eq scrape_and_finish_def callbacks_blocked releases_blocked fst_blocked_branch
            expected_callback_def expected_release_def invocation_error_def)
  next
    case (ScrapeFailed msg)
    then have nt: "\<not> threshold_retry_triggered w body"
      by (simp add: threshold_retry_triggered_def)
    show ?thesis
      using ScrapeFailed False nt u
      by (simp add: eq scrape_and_finish_def callbacks_on_exception releases_on_exception
            expected_callback_def expected_release_def invocation_error_def)
  qed
qed

theorem cleanup_guarantee_witness:
  "truthy_str (post_url scenario_job) \<and>
   callbacks_posted (snd (lambda_handler blocked_world (Body scenario_job))) =
     [Post ''https://caller.example/hook'' (Callback ''job-1'' True (Some True) None [])] \<and>
   releases_posted (snd (lambda_handler blocked_world (Body scenario_job))) =
     [Post ''https://pool.example/release-cookie''
        (ReleaseCookie 7 False
           (Some ''Instagram API blocked - possible bad cookie or rate limit''))]"
proof -
  have nt: "\<not> threshold_retry_triggered blocked_world scenario_job"
    by (simp add: threshold_retry_triggered_def blocked_world_facts)
  have u: "scraper_used scenario_job = GraphQL"
    using scenario_job_facts(6) by (simp add: scraper_used_def)
  show ?thesis
    using cleanup_guarantee [OF scenario_job_facts(1), of blocked_world] nt u scenario_job_facts
    by (simp add: expected_callback_def expected_release_def invocation_error_def
          blocked_world_facts)
       (simp add: scenario_job_def)
qed

text \<open>
  The claim as stated counts the threshold-retry branch among those that post a callback
  and release the cookie. In scenario C with a re-invocation that goes through, callback
  URL, release URL and cookie id are all given, and neither is posted.
\<close>

theorem cleanup_guarantee_counterexample:
  "truthy_str (callback_url scenario_job) \<and>
   truthy_str (cookies_release_url scenario_job) \<and> truthy_int (cookie_id scenario_job) \<and>
   callbacks_posted (snd (lambda_handler (scenario_world True) (Body scenario_job))) = [] \<and>
   releases_posted (snd (lambda_handler (scenario_world True) (Body scenario_job))) = []"
  by (simp add: scenario_job_facts scenario_retry_triggered)

text \<open>
  Claim C6, as the code has it. For an expected count below \<open>2^51\<close> (where the
  floating-point product decides as the exact product does) \<open>should_retry\<close> returns true
  exactly when \<open>retry_count < 5\<close>, \<open>expected_count > 0\<close> and
  \<open>fetched_count < 0.80 * expected_count\<close>. With 70 of 100 comments at \<open>retry_count = 1\<close>
  the handler posts the event with \<open>retry_count = 2\<close>; when that request goes through,
  nothing else happens in this invocation, so no callback is posted; when it fails, the
  final callback is posted with \<open>retry_loop\<close> false and the cookie is released.
\<close>

theorem threshold_retry:
  "(expected_count < 2 ^ 51 \<and> \<bar>fetched_count\<bar> < 2 ^ 1000 \<longrightarrow>
      should_retry fetched_count expected_count n =
        Inr (n < 5 \<and> 0 < expected_count \<and> 5 * fetched_count < 4 * expected_count)) \<and>
   (truthy_str (post_url body) \<and> retry_count body = 1 \<and> scrape w GraphQL = Scraped result \<and>
    total_comments result = 70 \<and> expected_comment_count w = Some 100 \<longrightarrow>
      lambda_handler w (Body body) =
        (if retry_request_ok w (body\<lparr>retry_count := 2\<rparr>)
         then (Completed True False,
               [CallScraper GraphQL, FetchExpected, InvokeRetry (body\<lparr>retry_count := 2\<rparr>)])
         else (Completed False True,
               [CallScraper GraphQL, FetchExpected, InvokeRetry (body\<lparr>retry_count := 2\<rparr>)] @
               ensure_cleanup (job_id body) (callback_url body) (cookies_release_url body)
                 (cookie_id body) (Some result) None True None)) \<and>
      callbacks_posted (snd (lambda_handler w (Body body))) =
        (if truthy_str (callback_url body) \<and> \<not> retry_request_ok w (body\<lparr>retry_count := 2\<rparr>)
         then [Post (the (callback_url body))
                 (Callback (job_id body) True (Some False) None (comments result))]
         else []))"
proof (intro conjI impI)
  assume "expected_count < 2 ^ 51 \<and> \<bar>fetched_count\<bar> < 2 ^ 1000"
  then show "should_retry fetched_count expected_count n =
        Inr (n < 5 \<and> 0 < expected_count \<and> 5 * fetched_count < 4 * expected_count)"
    using should_retry_decides by blast
next
  assume a: "truthy_str (post_url body) \<and> retry_count body = 1 \<and> scrape w GraphQL = Scraped result \<and>
    total_comments result = 70 \<and> expected_comment_count w = Some 100"
  then have n: "retry_count body < MAX_RETRY_COUNT" by (simp add: MAX_RETRY_COUNT_def)
  have r: "should_retry (total_comments result) 100 (retry_count body) = Inr True"
    using a should_retry_scenario by simp
  from a have p: "truthy_str (post_url body)" and s: "scrape w GraphQL = Scraped result"
    and x: "expected_comment_count w = Some 100" by simp_all
  note eq = lambda_handler_threshold_branch [OF p n s x r]
  show "lambda_handler w (Body body) =
        (if retry_request_ok w (body\<lparr>retry_count := 2\<rparr>)
         then (Completed True False,
               [CallScraper GraphQL, FetchExpected, InvokeRetry (body\<lparr>retry_count := 2\<rparr>)])
         else (Completed False True,
               [CallScraper GraphQL, FetchExpected, InvokeRetry (body\<lparr>retry_count := 2\<rparr>)] @
               ensure_cleanup (job_id body) (callback_url body) (cookies_release_url body)
                 (cookie_id body) (Some result) None True None))"
    using eq a by simp
  show "callbacks_posted (snd (lambda_handler w (Body body))) =
        (if truthy_str (callback_url body) \<and> \<not> retry_request_ok w (body\<lparr>retry_count := 2\<rparr>)
         then [Post (the (callback_url body))
                 (Callback (job_id body) True (Some False) None (comments result))]
         else [])"
    using a by (simp add: eq callbacks_cleanup)
qed

theorem threshold_retry_witness:
  "(100::int) < 2 ^ 51 \<and> \<bar>70::int\<bar> < 2 ^ 1000 \<and>
   should_retry 70 100 1 = Inr True \<and>
   truthy_str (post_url scenario_job) \<and> retry_count scenario_job = 1 \<and>
   scrape (scenario_world False) GraphQL = Scraped seventy_comments \<and>
   total_comments seventy_comments = 70 \<and>
   expected_comment_count (scenario_world False) = Some 100 \<and>
   callbacks_posted (snd (lambda_handler (scenario_world False) (Body scenario_job))) =
     [Post ''https://caller.example/hook''
        (Callback ''job-1'' True (Some False) None (comments seventy_comments))]"
  using threshold_retry [where expected_count = 100 and fetched_count = 70 and n = 1
      and body = scenario_job and w = "scenario_world False" and result = seventy_comments]
    scenario_job_facts scenario_world_facts
  by (simp add: scenario_job_def callbacks_cleanup)

text \<open>
  The claim as stated has the interim branch post a callback marked \<open>retry_loop = true\<close>.
  In scenario C the effects of the invocation are the scraper call, the fetch of the
  expected count and the re-invocation, and no callback.
\<close>

theorem threshold_retry_counterexample:
  "total_comments seventy_comments = 70 \<and>
   expected_comment_count (scenario_world True) = Some 100 \<and>
   retry_count scenario_job = 1 \<and>
   callback_url scenario_job = Some ''https://caller.example/hook'' \<and>
   lambda_handler (scenario_world True) (Body scenario_job) =
     (Completed True False,
      [CallScraper GraphQL, FetchExpected, InvokeRetry (scenario_job\<lparr>retry_count := 2\<rparr>)])"
  by (simp add: scenario_world_facts scenario_job_facts scenario_retry_triggered)
     (simp add: scenario_job_def)

lemma no_scraper_call_in_cleanup [simp]:
  "CallScraper k \<notin> set (ensure_cleanup j cb rel cid res err ok reason)"
  by (simp add: ensure_cleanup_def)






section \<open>Properties of the comment scraper\<close>

subsection \<open>No duplicate top-level comments\<close>

lemma new_replies_are_replies:
  "new_replies ns seen parent = (new, seen1) \<Longrightarrow> c \<in> set new \<Longrightarrow> comment_type c = ''reply''"
proof (induction ns arbitrary: seen new)
  case Nil
  then show ?case by simp
next
  case (Cons n ns)
  show ?case
  proof (cases "reply_key n \<noteq> [] \<and> reply_key n \<notin> seen")
    case True
    then obtain cs where r: "new_replies ns (insert (reply_key n) seen) parent = (cs, seen1)"
      and e: "new = parse_comment n True parent # cs"
      using Cons.prems(1) by (auto simp: Let_def split: prod.splits)
    show ?thesis
      using Cons.IH [OF r] Cons.prems(2) e by (auto simp: parse_comment_def)
  next
    case False
    then have "new_replies ns seen parent = (new, seen1)" using Cons.prems(1) by auto
    from Cons.IH [OF this Cons.prems(2)] show ?thesis .
  qed
qed

lemma top_level_ids_Nil [simp]: "top_level_ids [] = []"
  by (simp add: top_level_ids_def)

lemma top_level_ids_append [simp]:
  "top_level_ids (xs @ ys) = top_level_ids xs @ top_level_ids ys"
  by (simp add: top_level_ids_def)

lemma top_level_ids_replies:
  "(\<And>c. c \<in> set reps \<Longrightarrow> comment_type c = ''reply'') \<Longrightarrow> top_level_ids reps = []"
  by (auto simp: top_level_ids_def filter_empty_conv)

lemma fetch_replies_loop_replies:
  "fetch_replies_loop rs parent st = Some (Inr reps, rs1) \<Longrightarrow>
   top_level_ids (replies st) = [] \<Longrightarrow> top_level_ids reps = []"
proof (induction rs arbitrary: st)
  case Nil
  then show ?case by simp
next
  case (Cons r rs)
  show ?case
  proof (cases r)
    case (Page edges info)
    obtain new seen1 where n: "new_replies edges (seen_reply_ids st) parent = (new, seen1)"
      by (cases "new_replies edges (seen_reply_ids st) parent")
    have "top_level_ids new = []"
      using new_replies_are_replies [OF n] by (intro top_level_ids_replies)
    then have t: "top_level_ids (replies st @ new) = []" using Cons.prems(2) by simp
    let ?st1 = "\<lparr>replies = replies st @ new, seen_reply_ids = seen1,
                 after_cursor = end_cursor info, previous_cursor = after_cursor st\<rparr>"
    have "fetch_replies_loop rs parent ?st1 = Some (Inr reps, rs1) \<Longrightarrow> top_level_ids reps = []"
      using Cons.IH [of ?st1] t by simp
    then show ?thesis
      using Cons.prems Page n t by (auto simp: Let_def split: if_splits)
  qed (use Cons.prems in auto)
qed

lemma fetch_all_replies_replies:
  "fetch_all_replies rs parent = Some (Inr reps, rs1) \<Longrightarrow> top_level_ids reps = []"
  unfolding fetch_all_replies_def
  by (erule fetch_replies_loop_replies) (simp add: top_level_ids_def)

lemma new_comments_props:
  "new_comments items seen = (new, seen1) \<Longrightarrow>
   distinct (map fst new) \<and> set (map fst new) \<inter> seen = {} \<and>
   seen1 = seen \<union> set (map fst new) \<and> set new \<subseteq> set items"
proof (induction items arbitrary: seen new seen1)
  case Nil
  then show ?case by simp
next
  case (Cons item items)
  obtain cid n where i: "item = (cid, n)" by (cases item)
  show ?case
  proof (cases "cid \<in> seen")
    case True
    then have "new_comments items seen = (new, seen1)" using Cons.prems i by simp
    from Cons.IH [OF this] show ?thesis using i by auto
  next
    case False
    obtain new' where r: "new_comments items (insert cid seen) = (new', seen1)"
      and e: "new = (cid, n) # new'"
      using Cons.prems i False by (auto simp: Let_def split: prod.splits)
    from Cons.IH [OF r] show ?thesis using e False i by auto
  qed
qed

lemma page_comments_well_keyed: "well_keyed (page_comments nodes)"
proof (induction nodes)
  case Nil
  then show ?case by (simp add: well_keyed_def)
next
  case (Cons n ns)
  then show ?case
    by (auto simp: well_keyed_def parse_comment_def get_or_def split: option.splits)
qed

lemma well_keyed_subset: "well_keyed items \<Longrightarrow> set new \<subseteq> set items \<Longrightarrow> well_keyed new"
  by (auto simp: well_keyed_def list_all_iff)

lemma top_level_ids_parse [simp]:
  "top_level_ids (parse_comment n False p # cs) =
   comment_id (parse_comment n False p) # top_level_ids cs"
  by (simp add: top_level_ids_def parse_comment_def)

lemma process_new_comments_distinct:
  assumes "process_new_comments rs with_replies limit items acc = Some (Inr (sig, acc1), rs1)"
    and "well_keyed items" and "distinct (map fst items)"
    and "set (map fst items) \<inter> set (top_level_ids acc) = {}"
    and "distinct (top_level_ids acc)"
  shows "distinct (top_level_ids acc1) \<and>
         set (top_level_ids acc1) \<subseteq> set (top_level_ids acc) \<union> set (map fst items)"
  using assms
proof (induction items arbitrary: rs acc)
  case Nil
  then show ?case by simp
next
  case (Cons item items)
  obtain cid n where i: "item = (cid, n)" by (cases item)
  let ?c = "parse_comment n False []"
  have k: "comment_id ?c = cid" and wk: "well_keyed items"
    using Cons.prems(2) i by (simp_all add: well_keyed_def)
  have d: "distinct (map fst items)" and ni: "cid \<notin> set (map fst items)"
    and na: "cid \<notin> set (top_level_ids acc)"
    and di: "set (map fst items) \<inter> set (top_level_ids acc) = {}"
    using Cons.prems(3,4) i by auto
  have step: "distinct (top_level_ids acc1) \<and>
         set (top_level_ids acc1) \<subseteq> set (top_level_ids acc) \<union> set (map fst (item # items))"
    if t: "top_level_ids acc2 = top_level_ids acc @ [cid]"
      and c: "(if at_limit limit acc2 then Some (Inr (Finished, acc2), rs2)
               else process_new_comments rs2 with_replies limit items acc2) =
              Some (Inr (sig, acc1), rs1)"
    for acc2 rs2
  proof (cases "at_limit limit acc2")
    case True
    then have "acc1 = acc2" using c by simp
    then show ?thesis using t na Cons.prems(5) i by auto
  next
    case False
    then have p: "process_new_comments rs2 with_replies limit items acc2 = Some (Inr (sig, acc1), rs1)"
      using c by simp
    have "set (map fst items) \<inter> set (top_level_ids acc2) = {}" using t di ni by auto
    moreover have "distinct (top_level_ids acc2)" using t na Cons.prems(5) by simp
    ultimately have "distinct (top_level_ids acc1) \<and>
         set (top_level_ids acc1) \<subseteq> set (top_level_ids acc2) \<union> set (map fst items)"
      using Cons.IH [OF p wk d] by blast
    then show ?thesis using t i by auto
  qed
  have t1: "top_level_ids (acc @ [?c]) = top_level_ids acc @ [cid]" using k by simp
  show ?case
  proof (cases with_replies)
    case False
    with Cons.prems(1) i
    have "(if at_limit limit (acc @ [?c]) then Some (Inr (Finished, acc @ [?c]), rs)
           else process_new_comments rs with_replies limit items (acc @ [?c])) =
          Some (Inr (sig, acc1), rs1)"
      by (auto simp: Let_def split: if_splits)
    then show ?thesis by (rule step [OF t1])
  next
    case True
    show ?thesis
    proof (cases "get_or (child_comment_count n) (JInt 0)")
      case (JInt cnt)
      show ?thesis
      proof (cases "cnt > 0")
        case False
        with Cons.prems(1) i True JInt
        have "(if at_limit limit (acc @ [?c]) then Some (Inr (Finished, acc @ [?c]), rs)
               else process_new_comments rs with_replies limit items (acc @ [?c])) =
              Some (Inr (sig, acc1), rs1)"
          by (auto simp: Let_def split: if_splits)
        then show ?thesis by (rule step [OF t1])
      next
        case pos: True
        show ?thesis
        proof (cases "fetch_all_replies rs cid")
          case None
          then show ?thesis using Cons.prems(1) i True JInt pos by (simp add: Let_def)
        next
          case (Some p)
          obtain out rs2 where p: "p = (out, rs2)" by (cases p)
          show ?thesis
          proof (cases out)
            case (Inl e)
            then show ?thesis using Cons.prems(1) i True JInt pos Some p by (simp add: Let_def)
          next
            case (Inr rep)
            have f: "fetch_all_replies rs cid = Some (Inr rep, rs2)" using Some p Inr by simp
            have c: "(if at_limit limit (acc @ [?c] @ rep)
                      then Some (Inr (Finished, acc @ [?c] @ rep), rs2)
                      else process_new_comments rs2 with_replies limit items (acc @ [?c] @ rep)) =
                     Some (Inr (sig, acc1), rs1)"
              using Cons.prems(1) i True JInt pos f by (auto simp: Let_def split: if_splits)
            have "top_level_ids (acc @ [?c] @ rep) = top_level_ids acc @ [cid]"
              using fetch_all_replies_replies [OF f] k by simp
            from step [OF this c] show ?thesis .
          qed
        qed
      qed
    next
      case JNull
      then show ?thesis using Cons.prems(1,5) i True na k by (auto simp: Let_def)
    next
      case (JStr s)
      then show ?thesis using Cons.prems(1,5) i True na k by (auto simp: Let_def)
    qed
  qed
qed

lemma page_step_preserves_no_duplicates:
  assumes inv: "no_duplicates st"
    and n: "new_comments (page_comments edges) (seen_comment_ids st) = (new, seen1)"
    and p: "process_new_comments rs with_replies limit new (all_comments st) =
            Some (Inr (sig, all1), rs1)"
  shows "no_duplicates
           \<lparr>all_comments = all1, seen_comment_ids = seen1, page_cursor = c,
            consecutive_empty_pages = e\<rparr>"
proof -
  from new_comments_props [OF n]
  have d: "distinct (map fst new)" and s: "set (map fst new) \<inter> seen_comment_ids st = {}"
    and s1: "seen1 = seen_comment_ids st \<union> set (map fst new)"
    and sub: "set new \<subseteq> set (page_comments edges)"
    by blast+
  have wk: "well_keyed new"
    using page_comments_well_keyed sub by (rule well_keyed_subset)
  from inv have da: "distinct (top_level_ids (all_comments st))"
    and sa: "set (top_level_ids (all_comments st)) \<subseteq> seen_comment_ids st"
    by (simp_all add: no_duplicates_def)
  from s sa have "set (map fst new) \<inter> set (top_level_ids (all_comments st)) = {}" by blast
  from process_new_comments_distinct [OF p wk d this da] sa s1
  show ?thesis by (auto simp: no_duplicates_def)
qed

lemma scrape_loop_no_duplicates:
  "scrape_loop rs with_replies limit st = Some (Inr acc, rs1) \<Longrightarrow> no_duplicates st \<Longrightarrow>
   distinct (top_level_ids acc)"
proof (induction "length rs" arbitrary: rs st rule: less_induct)
  case less
  show ?case
  proof (cases rs)
    case Nil
    then show ?thesis using less.prems by simp
  next
    case (Cons r rs')
    show ?thesis
    proof (cases r)
      case (Page edges info)
      obtain new seen1 where
        n: "new_comments (page_comments edges) (seen_comment_ids st) = (new, seen1)"
        by (cases "new_comments (page_comments edges) (seen_comment_ids st)")
      show ?thesis
      proof (cases "process_new_comments rs' with_replies limit new (all_comments st)")
        case None
        then show ?thesis using less.prems(1) Cons Page n by simp
      next
        case (Some q)
        obtain out rs2 where q: "q = (out, rs2)" by (cases q)
        show ?thesis
        proof (cases out)
          case (Inl e)
          then show ?thesis using less.prems(1) Cons Page n Some q by simp
        next
          case (Inr sa)
          obtain sig all1 where sa: "sa = (sig, all1)" by (cases sa)
          have p: "process_new_comments rs' with_replies limit new (all_comments st) =
                   Some (Inr (sig, all1), rs2)"
            using Some q Inr sa by simp
          let ?e = "if new = [] then consecutive_empty_pages st + 1 else 0"
          let ?st1 = "\<lparr>all_comments = all1, seen_comment_ids = seen1,
                       page_cursor = end_cursor info, consecutive_empty_pages = ?e\<rparr>"
          have inv1: "no_duplicates ?st1"
            using less.prems(2) n p by (rule page_step_preserves_no_duplicates)
          then have d1: "distinct (top_level_ids all1)" by (simp add: no_duplicates_def)
          have len: "length rs2 < length rs"
            using process_new_comments_consumes [OF p] Cons by simp
          show ?thesis
          proof (cases "acc = all1")
            case True
            then show ?thesis using d1 by simp
          next
            case False
            then have "scrape_loop rs2 with_replies limit ?st1 = Some (Inr acc, rs1)"
              using less.prems(1) Cons Page n p sa
              by (cases sig) (auto simp: Let_def split: if_splits)
            from less.hyps [OF len this inv1] show ?thesis .
          qed
        qed
      qed
    qed (use less.prems Cons in \<open>auto simp: no_duplicates_def\<close>)
  qed
qed

lemma no_duplicates_initial:
  "no_duplicates \<lparr>all_comments = [], seen_comment_ids = {}, page_cursor = None,
     consecutive_empty_pages = 0\<rparr>"
  by (simp add: no_duplicates_def)

lemma scrape_comments_overlapping:
  "scrape_comments overlapping_pages ''https://www.instagram.com/p/Cabc123/'' True None =
     Some (Scraped \<lparr>total_comments = 4,
             comments = [mk_comment ''1'', mk_comment ''2'', mk_reply ''3'' ''2'',
                         mk_comment ''3'']\<rparr>, [])"
  by code_simp

text \<open>
  Claim C9. The result of \<open>scrape_comments\<close> has no two top-level comments with the same
  comment id, whatever pages the service answers with, overlapping or not.
\<close>

theorem scrape_comments_no_duplicate_ids:
  assumes "scrape_comments rs url with_replies limit = Some (Scraped result, rs1)"
  shows "distinct (top_level_ids (comments result))"
proof -
  from assms obtain rs0 st0 rs2 acc where
    l: "scrape_loop rs0 with_replies limit
          \<lparr>all_comments = [], seen_comment_ids = {}, page_cursor = None,
           consecutive_empty_pages = 0\<rparr> = Some (Inr acc, rs2)"
    and r: "result = \<lparr>total_comments = int (length acc), comments = acc\<rparr>"
    by (auto simp: scrape_comments_def split: option.splits list.splits sum.splits
          scrape_exc.splits prod.splits)
  from scrape_loop_no_duplicates [OF l no_duplicates_initial] r show ?thesis by simp
qed

theorem scrape_comments_no_duplicate_ids_witness:
  "scrape_comments overlapping_pages ''https://www.instagram.com/p/Cabc123/'' True None =
     Some (Scraped \<lparr>total_comments = 4,
             comments = [mk_comment ''1'', mk_comment ''2'', mk_reply ''3'' ''2'',
                         mk_comment ''3'']\<rparr>, []) \<and>
   distinct (top_level_ids (comments \<lparr>total_comments = 4,
             comments = [mk_comment ''1'', mk_comment ''2'', mk_reply ''3'' ''2'',
                         mk_comment ''3'']\<rparr>))"
  using scrape_comments_no_duplicate_ids [OF scrape_comments_overlapping]
    scrape_comments_overlapping by simp


subsection \<open>Reply pagination and repeated cursors\<close>

lemma fetch_replies_loop_duplicate_cursor:
  assumes "end_cursor info = previous_cursor st \<or> end_cursor info = after_cursor st"
  shows "\<exists>reps. fetch_replies_loop (Page edges info # rs) parent st = Some (Inr reps, rs)"
proof -
  obtain new seen1 where n: "new_replies edges (seen_reply_ids st) parent = (new, seen1)"
    by (cases "new_replies edges (seen_reply_ids st) parent")
  show ?thesis using assms n by (auto simp: Let_def)
qed

lemma fetch_replies_loop_repeating:
  "cursor_repeats (previous_cursor st) (after_cursor st) rs \<Longrightarrow>
   \<exists>out rest. fetch_replies_loop rs parent st = Some (out, rest)"
proof (induction rs arbitrary: st)
  case Nil
  then show ?case by simp
next
  case (Cons r rs)
  show ?case
  proof (cases r)
    case (Page edges info)
    obtain new seen1 where n: "new_replies edges (seen_reply_ids st) parent = (new, seen1)"
      by (cases "new_replies edges (seen_reply_ids st) parent")
    let ?st1 = "\<lparr>replies = replies st @ new, seen_reply_ids = seen1,
                 after_cursor = end_cursor info, previous_cursor = after_cursor st\<rparr>"
    show ?thesis
    proof (cases "end_cursor info = previous_cursor st \<or> end_cursor info = after_cursor st")
      case True
      from fetch_replies_loop_duplicate_cursor [OF True, of edges rs parent]
      show ?thesis using Page by blast
    next
      case False
      then have "cursor_repeats (previous_cursor ?st1) (after_cursor ?st1) rs"
        using Cons.prems Page by simp
      from Cons.IH [OF this] obtain out rest where
        "fetch_replies_loop rs parent ?st1 = Some (out, rest)" by blast
      then show ?thesis using Page n by (auto simp: Let_def)
    qed
  qed simp_all
qed

text \<open>
  On the cursors \<open>A\<close>, \<open>B\<close>, \<open>A\<close> the loop stops at the third page and leaves the fourth
  unasked. The guard compares with the last two cursors only: when the cursors go round
  three values and every page brings a reply not seen before, the loop asks on, here beyond
  the six answers.
\<close>

lemma fetch_all_replies_repeating:
  "fetch_all_replies repeating_reply_pages ''1'' =
     Some (Inr [mk_reply ''11'' ''1'', mk_reply ''12'' ''1'', mk_reply ''13'' ''1''],
           [reply_page 14 ''B''])"
  by code_simp

lemma fetch_all_replies_cycling: "fetch_all_replies cycling_reply_pages ''1'' = None"
  by code_simp

text \<open>
  Claim C8. When the \<open>end_cursor\<close> of a page of replies equals the previous or the current
  cursor, \<open>_fetch_all_replies\<close> stops at that page and asks for no other; so it returns on
  every sequence of answers in which a cursor repeats one of the two before it.
\<close>

theorem reply_pagination_stops_on_duplicate_cursor:
  "(end_cursor info = previous_cursor st \<or> end_cursor info = after_cursor st \<longrightarrow>
      (\<exists>reps. fetch_replies_loop (Page edges info # rs) parent st = Some (Inr reps, rs))) \<and>
   (cursor_repeats (previous_cursor st) (after_cursor st) rs \<longrightarrow>
      (\<exists>out rest. fetch_replies_loop rs parent st = Some (out, rest)))"
  using fetch_replies_loop_duplicate_cursor [of info st edges rs parent]
    fetch_replies_loop_repeating [of st rs parent]
  by blast

theorem reply_pagination_stops_on_duplicate_cursor_witness:
  "end_cursor \<lparr>has_next_page = True, end_cursor = Some ''A''\<rparr> = previous_cursor after_two_pages \<and>
   (\<exists>reps. fetch_replies_loop
       (Page [mk_node 13 0] \<lparr>has_next_page = True, end_cursor = Some ''A''\<rparr> #
        [reply_page 13 ''A'', reply_page 14 ''B'']) ''1'' after_two_pages =
      Some (Inr reps, [reply_page 13 ''A'', reply_page 14 ''B''])) \<and>
   cursor_repeats (previous_cursor after_two_pages) (after_cursor after_two_pages)
     [reply_page 13 ''A'', reply_page 14 ''B''] \<and>
   (\<exists>out rest. fetch_replies_loop [reply_page 13 ''A'', reply_page 14 ''B''] ''1''
       after_two_pages = Some (out, rest))"
proof -
  have h1: "end_cursor \<lparr>has_next_page = True, end_cursor = Some ''A''\<rparr> =
            previous_cursor after_two_pages"
    by (simp add: after_two_pages_def)
  have h2: "cursor_repeats (previous_cursor after_two_pages) (after_cursor after_two_pages)
              [reply_page 13 ''A'', reply_page 14 ''B'']"
    by (simp add: after_two_pages_def reply_page_def)
  from reply_pagination_stops_on_duplicate_cursor
         [of "\<lparr>has_next_page = True, end_cursor = Some ''A''\<rparr>" after_two_pages
             "[mk_node 13 0]" "[reply_page 13 ''A'', reply_page 14 ''B'']" "''1''"]
       h1 h2
  show ?thesis by blast
qed


end
